theory Spec2Isabelle
  imports Main "HOL-Library.AList"
begin

section \<open>Trie construction from a Marine Regions export (\<^verbatim>\<open>build_trie.py\<close>)\<close>

text \<open>
  The module has two functions of interest. \<^verbatim>\<open>read_mr_entities\<close> reads a tab-separated
  export line by line, drops ill-formed and filtered records and turns every other record
  into an entity (the whitespace-separated tokens of its name, and its identifier).
  \<^verbatim>\<open>build_trie\<close> inserts the entities into a trie of mutable \<^verbatim>\<open>Node\<close> objects.

  Python strings are modelled as \<^typ>\<open>string\<close>; a \<^typ>\<open>char\<close> stands for a code point
  below 256. Calls to the logger are left out: they change nothing that either function
  returns.
\<close>

type_synonym entity = "string list \<times> string"

subsection \<open>String operations used by the loader\<close>

definition newline :: char where
  "newline = CHR 0x0A"

definition tab :: char where
  "tab = CHR 0x09"

text \<open>
  Iterating over a text file yields its lines, each with its terminating newline; only the
  last line may lack one. The argument is the decoded contents of the file, with line
  endings already translated to \<^verbatim>\<open>\n\<close> as Python's text mode does.
\<close>

fun file_lines :: "string \<Rightarrow> string list" where
  "file_lines [] = []"
| "file_lines (c # cs) =
     (if c = newline then [c] # file_lines cs
      else (case file_lines cs of [] \<Rightarrow> [[c]] | l # ls \<Rightarrow> (c # l) # ls))"

text \<open>\<^verbatim>\<open>s.rstrip(ch)\<close> for a single character: every trailing occurrence is removed.\<close>

definition rstrip :: "char \<Rightarrow> string \<Rightarrow> string" where
  "rstrip ch s = rev (dropWhile (\<lambda>c. c = ch) (rev s))"

text \<open>
  \<^verbatim>\<open>s.split(sep)\<close> for a single character: the fields between separators, empty fields
  included, so that the result always has one field more than \<open>s\<close> has separators.
\<close>

fun split_sep :: "char \<Rightarrow> string \<Rightarrow> string list" where
  "split_sep sep [] = [[]]"
| "split_sep sep (c # cs) =
     (if c = sep then [] # split_sep sep cs
      else (case split_sep sep cs of [] \<Rightarrow> [[c]] | w # ws \<Rightarrow> (c # w) # ws))"

text \<open>
  \<^verbatim>\<open>str.isspace\<close> on one code point below 256: the ASCII controls 9 to 13 and 28 to 31,
  the space, NEL (133) and the no-break space (160).
\<close>

definition isspace :: "char \<Rightarrow> bool" where
  "isspace c \<longleftrightarrow>
     (let n = (of_char c :: nat)
      in (9 \<le> n \<and> n \<le> 13) \<or> (28 \<le> n \<and> n \<le> 32) \<or> n = 133 \<or> n = 160)"

text \<open>
  \<^verbatim>\<open>s.split()\<close> without argument: leading whitespace is skipped, the next run of other
  characters is a token, and so on until the string is used up.
\<close>

function split_ws :: "string \<Rightarrow> string list" where
  "split_ws s =
     (case dropWhile isspace s of
        [] \<Rightarrow> []
      | c # cs \<Rightarrow> takeWhile (\<lambda>x. \<not> isspace x) (c # cs)
                  # split_ws (dropWhile (\<lambda>x. \<not> isspace x) (c # cs)))"
  by pat_completeness auto
termination
proof (relation "measure length")
  show "wf (measure length)" by simp
next
  fix s :: string and c cs
  assume d: "dropWhile isspace s = c # cs"
  then have "\<not> isspace c" using hd_dropWhile [of isspace s] by auto
  then have "length (dropWhile (\<lambda>x. \<not> isspace x) (c # cs)) \<le> length cs"
    by (simp add: length_dropWhile_le)
  also have "length cs < length (dropWhile isspace s)" by (simp add: d)
  also have "\<dots> \<le> length s" by (rule length_dropWhile_le)
  finally show "(dropWhile (\<lambda>x. \<not> isspace x) (c # cs), s) \<in> measure length" by simp
qed

declare split_ws.simps [simp del]

subsection \<open>The regular expression of the name filter\<close>

text \<open>
  A compiled pattern is the list of operations that Python's parser produces for it. Only
  the operations of \<^verbatim>\<open>^[A-Z]+[0-9][A-Z0-9]*$\<close> are modelled: the two anchors, a character
  set given by its ranges, and the greedy repetition of a set with a minimal count and no
  upper bound.
\<close>

datatype re_op =
    AT_BEGINNING
  | AT_END
  | IN "(char \<times> char) list"
  | MAX_REPEAT nat "(char \<times> char) list"

definition in_ranges :: "(char \<times> char) list \<Rightarrow> char \<Rightarrow> bool" where
  "in_ranges rs c \<longleftrightarrow>
     list_ex (\<lambda>(lo, hi). (of_char lo :: nat) \<le> of_char c \<and> (of_char c :: nat) \<le> of_char hi) rs"

text \<open>
  \<^verbatim>\<open>regex.match(s)\<close> read as a truth value: is there a match starting at position 0?
  The matcher backtracks over every count a repetition may take; \<open>at_start\<close> tells whether
  nothing has been consumed yet. Without the \<^verbatim>\<open>MULTILINE\<close> flag, \<^verbatim>\<open>$\<close> holds at the end
  of the string and also just before a newline that ends the string.
\<close>

fun re_match :: "re_op list \<Rightarrow> bool \<Rightarrow> string \<Rightarrow> bool" where
  "re_match [] at_start s = True"
| "re_match (AT_BEGINNING # ops) at_start s = (at_start \<and> re_match ops at_start s)"
| "re_match (AT_END # ops) at_start s = ((s = [] \<or> s = [newline]) \<and> re_match ops at_start s)"
| "re_match (IN rs # ops) at_start s =
     (case s of [] \<Rightarrow> False | c # cs \<Rightarrow> in_ranges rs c \<and> re_match ops False cs)"
| "re_match (MAX_REPEAT n rs # ops) at_start s =
     ((case s of [] \<Rightarrow> False
       | c # cs \<Rightarrow> in_ranges rs c \<and> re_match (MAX_REPEAT (n - 1) rs # ops) False cs)
      \<or> (n = 0 \<and> re_match ops at_start s))"

subsection \<open>Module constants\<close>

definition SKIPPED_PLACE_TYPES :: "string set" where
  "SKIPPED_PLACE_TYPES =
     {''ICES Statistical Rectangles'', ''FAO Subdivisions'', ''NAFO Area'', ''ICES Areas''}"

definition SKIPPED_GEO_NAMES :: "string set" where
  "SKIPPED_GEO_NAMES = {''As'', ''Of''}"

definition SKIPPED_GEO_NAMES_PAT :: "re_op list" where
  "SKIPPED_GEO_NAMES_PAT =
     [AT_BEGINNING,
      MAX_REPEAT 1 [(CHR ''A'', CHR ''Z'')],
      IN [(CHR ''0'', CHR ''9'')],
      MAX_REPEAT 0 [(CHR ''A'', CHR ''Z''), (CHR ''0'', CHR ''9'')],
      AT_END]"

subsection \<open>\<^verbatim>\<open>read_mr_entities\<close>\<close>

datatype exn = ValueError | OSError

text \<open>
  The target list \<^verbatim>\<open>mrgid, geo_name, language, place_type = ...\<close> raises
  \<^verbatim>\<open>ValueError\<close> unless the right-hand side has exactly four items.
\<close>

fun unpack4 :: "string list \<Rightarrow> exn + (string \<times> string \<times> string \<times> string)" where
  "unpack4 [a, b, c, d] = Inr (a, b, c, d)"
| "unpack4 _ = Inl ValueError"

text \<open>
  One pass through the body of the \<^verbatim>\<open>for line in f\<close> loop leaves it in one of three
  ways: the \<^verbatim>\<open>continue\<close> of the \<^verbatim>\<open>except\<close> clause (after the warning \<^verbatim>\<open>ill-formed line\<close>),
  the \<^verbatim>\<open>continue\<close> of the filter (after the debug message \<^verbatim>\<open>skipping\<close>), or the
  \<^verbatim>\<open>entities.append\<close> at its end.
\<close>

datatype line_result = Ill_formed | Skipping | is_Appended: Appended (the_entity: entity)

definition read_line :: "string set \<Rightarrow> re_op list \<Rightarrow> string set \<Rightarrow> string \<Rightarrow> line_result" where
  "read_line skipped_geo_names skipped_geo_names_pat skipped_place_types line0 =
     (let line = rstrip newline line0
      in case unpack4 (split_sep tab line) of
           Inl _ \<Rightarrow> Ill_formed
         | Inr (mrgid, geo_name, language, place_type) \<Rightarrow>
             if place_type \<in> skipped_place_types \<or>
                geo_name \<in> skipped_geo_names \<or>
                re_match skipped_geo_names_pat True geo_name
             then Skipping
             else Appended (split_ws geo_name, mrgid))"

text \<open>The effect of one pass on the list \<^verbatim>\<open>entities\<close>, the only state of the loop.\<close>

definition loop_step ::
  "string set \<Rightarrow> re_op list \<Rightarrow> string set \<Rightarrow> entity list \<Rightarrow> string \<Rightarrow> entity list" where
  "loop_step skipped_geo_names skipped_geo_names_pat skipped_place_types entities line =
     (case read_line skipped_geo_names skipped_geo_names_pat skipped_place_types line of
        Appended e \<Rightarrow> entities @ [e]
      | _ \<Rightarrow> entities)"

text \<open>The loop, started with \<^verbatim>\<open>entities = []\<close>, over the lines that follow the header.\<close>

definition read_lines ::
  "string set \<Rightarrow> re_op list \<Rightarrow> string set \<Rightarrow> string list \<Rightarrow> entity list" where
  "read_lines skipped_geo_names skipped_geo_names_pat skipped_place_types lines =
     foldl (loop_step skipped_geo_names skipped_geo_names_pat skipped_place_types) [] lines"

text \<open>The \<^verbatim>\<open>with\<close> block: \<^verbatim>\<open>f.readline()\<close> consumes the header, the loop reads the rest.\<close>

definition read_text :: "string set \<Rightarrow> re_op list \<Rightarrow> string set \<Rightarrow> string \<Rightarrow> entity list" where
  "read_text skipped_geo_names skipped_geo_names_pat skipped_place_types contents =
     read_lines skipped_geo_names skipped_geo_names_pat skipped_place_types
       (drop 1 (file_lines contents))"

text \<open>
  The function itself. The file system maps a file name to the contents of the file;
  \<^verbatim>\<open>open\<close> raises when there is none. The three filter parameters come in the order of
  the signature; their defaults are the module constants above.
\<close>

definition read_mr_entities ::
  "(string \<rightharpoonup> string) \<Rightarrow> string \<Rightarrow> string set \<Rightarrow> re_op list \<Rightarrow> string set
     \<Rightarrow> exn + entity list" where
  "read_mr_entities fs csv_fname skipped_geo_names skipped_geo_names_pat skipped_place_types =
     (case fs csv_fname of
        None \<Rightarrow> Inl OSError
      | Some contents \<Rightarrow>
          Inr (read_text skipped_geo_names skipped_geo_names_pat skipped_place_types contents))"

subsection \<open>\<^verbatim>\<open>build_trie\<close>\<close>

text \<open>
  A \<^verbatim>\<open>Node\<close> is a pair of a list and a dict, both mutated in place while other nodes
  refer to it. The nodes therefore live in a heap: a node is known by its address, the
  position at which it was allocated, and the dict of a node maps a token to the address
  of a child. The dict is an association list in insertion order.
\<close>

record node =
  ids :: "string list"
  children :: "(string \<times> nat) list"

text \<open>\<^verbatim>\<open>Node([], {})\<close>: a fresh node, at the next free address.\<close>

definition alloc_Node :: "node list \<Rightarrow> nat \<times> node list" where
  "alloc_Node h = (length h, h @ [\<lparr>ids = [], children = []\<rparr>])"

text \<open>\<^verbatim>\<open>node.children[token] = new_node\<close>\<close>

definition set_child :: "node list \<Rightarrow> nat \<Rightarrow> string \<Rightarrow> nat \<Rightarrow> node list" where
  "set_child h node token new_node =
     h[node := (h ! node)\<lparr>children := AList.update token new_node (children (h ! node))\<rparr>]"

text \<open>\<^verbatim>\<open>node.ids.append(id)\<close>\<close>

definition ids_append :: "node list \<Rightarrow> nat \<Rightarrow> string \<Rightarrow> node list" where
  "ids_append h node i = h[node := (h ! node)\<lparr>ids := ids (h ! node) @ [i]\<rparr>]"

text \<open>The local variables that outlive one iteration, next to the heap.\<close>

record build_state =
  heap :: "node list"
  node_count :: nat
  token_count :: nat

text \<open>
  The inner loop \<^verbatim>\<open>for token in tokens\<close>, from the node held in \<^verbatim>\<open>node\<close>: the lookup
  \<^verbatim>\<open>node.children[token]\<close> either succeeds or raises \<^verbatim>\<open>KeyError\<close>, and the handler then
  allocates the child. The result is the node at which the loop ends.
\<close>

fun descend :: "build_state \<Rightarrow> nat \<Rightarrow> string list \<Rightarrow> nat \<times> build_state" where
  "descend st node [] = (node, st)"
| "descend st node (token # tokens) =
     (case map_of (children (heap st ! node)) token of
        Some child \<Rightarrow> descend st child tokens
      | None \<Rightarrow>
          (let (new_node, h) = alloc_Node (heap st);
               h' = set_child h node token new_node
           in descend (st\<lparr>heap := h', node_count := node_count st + 1\<rparr>) new_node tokens))"

text \<open>The body of the outer loop \<^verbatim>\<open>for tokens, id in entities\<close>.\<close>

definition insert_entity :: "nat \<Rightarrow> build_state \<Rightarrow> entity \<Rightarrow> build_state" where
  "insert_entity trie st e =
     (case e of (tokens, i) \<Rightarrow>
        (let st1 = st\<lparr>token_count := token_count st + length tokens\<rparr>;
             (node, st2) = descend st1 trie tokens
         in st2\<lparr>heap := ids_append (heap st2) node i\<rparr>))"

text \<open>The function up to its \<^verbatim>\<open>return\<close>: the root and the state after the last entity.\<close>

definition build_loop :: "entity list \<Rightarrow> nat \<times> build_state" where
  "build_loop entities =
     (let (trie, h) = alloc_Node [];
          st = \<lparr>heap = h, node_count = 1, token_count = 0\<rparr>
      in (trie, foldl (insert_entity trie) st entities))"

text \<open>What the caller receives: the root node, and with it the heap the root lives in.\<close>

definition build_trie :: "entity list \<Rightarrow> nat \<times> node list" where
  "build_trie entities = (case build_loop entities of (trie, st) \<Rightarrow> (trie, heap st))"

subsection \<open>Reading a trie\<close>

text \<open>
  Walking from a node through \<^verbatim>\<open>children\<close> by a list of tokens, as a reader of the trie
  does with \<^verbatim>\<open>node.children[token]\<close>; \<open>None\<close> when a token is missing on the way.
\<close>

fun walk :: "node list \<Rightarrow> nat \<Rightarrow> string list \<Rightarrow> nat option" where
  "walk h node [] = Some node"
| "walk h node (token # tokens) =
     (if node < length h
      then (case map_of (children (h ! node)) token of
              None \<Rightarrow> None
            | Some child \<Rightarrow> walk h child tokens)
      else None)"

text \<open>The nodes that some list of tokens reaches from the root.\<close>

definition reachable :: "node list \<Rightarrow> nat \<Rightarrow> nat set" where
  "reachable h root = {node. \<exists>p. walk h root p = Some node}"

text \<open>\<open>edge h a t c\<close>: in heap \<open>h\<close>, the dict of node \<open>a\<close> maps token \<open>t\<close> to node \<open>c\<close>.\<close>

definition edge :: "node list \<Rightarrow> nat \<Rightarrow> string \<Rightarrow> nat \<Rightarrow> bool" where
  "edge h a t c \<longleftrightarrow> a < length h \<and> map_of (children (h ! a)) t = Some c"

text \<open>
  The shape that \<^verbatim>\<open>build_trie\<close> maintains: the root exists; a child is allocated after
  its parent and lies in the heap; no node is the child of two nodes, or of one node under
  two tokens; every node but the root is the child of some node.
\<close>

definition tree_heap :: "node list \<Rightarrow> bool" where
  "tree_heap h \<longleftrightarrow>
     0 < length h \<and>
     (\<forall>a t c. edge h a t c \<longrightarrow> a < c \<and> c < length h) \<and>
     (\<forall>a t b s c. edge h a t c \<longrightarrow> edge h b s c \<longrightarrow> a = b \<and> t = s) \<and>
     (\<forall>c. c < length h \<longrightarrow> c \<noteq> 0 \<longrightarrow> (\<exists>a t. edge h a t c))"

text \<open>
  How the inner loop changes the heap: every edge stays, the \<^verbatim>\<open>ids\<close> of the old nodes
  stay, and the nodes allocated since have empty \<^verbatim>\<open>ids\<close>.
\<close>

definition extends :: "node list \<Rightarrow> node list \<Rightarrow> bool" where
  "extends h h' \<longleftrightarrow>
     (\<forall>a t c. edge h a t c \<longrightarrow> edge h' a t c) \<and>
     (\<exists>k. map ids h' = map ids h @ replicate k [])"

text \<open>The two heap updates of the \<^verbatim>\<open>KeyError\<close> handler, taken together.\<close>

definition add_child :: "node list \<Rightarrow> nat \<Rightarrow> string \<Rightarrow> node list" where
  "add_child h a t = (case alloc_Node h of (n, h1) \<Rightarrow> set_child h1 a t n)"

text \<open>The identifiers of the entities whose tokens are exactly \<open>p\<close>, in input order.\<close>

definition ids_of :: "entity list \<Rightarrow> string list \<Rightarrow> string list" where
  "ids_of entities p = map snd (filter (\<lambda>e. fst e = p) entities)"

definition build_state_of :: "entity list \<Rightarrow> build_state" where
  "build_state_of entities = snd (build_loop entities)"

text \<open>The invariant of the outer loop, after the entities \<open>es\<close> have been inserted.\<close>

definition trie_inv :: "entity list \<Rightarrow> build_state \<Rightarrow> bool" where
  "trie_inv es st \<longleftrightarrow>
     tree_heap (heap st) \<and>
     (\<forall>e \<in> set es. \<exists>a. walk (heap st) 0 (fst e) = Some a) \<and>
     (\<forall>p a. walk (heap st) 0 p = Some a \<longrightarrow> ids (heap st ! a) = ids_of es p) \<and>
     sum_list (map (length \<circ> ids) (heap st)) = length es \<and>
     node_count st = length (heap st) \<and>
     token_count st = sum_list (map (length \<circ> fst) es)"

subsection \<open>Reading the loader's output\<close>

text \<open>The entities that one line contributes: one or none.\<close>

definition emitted :: "string set \<Rightarrow> re_op list \<Rightarrow> string set \<Rightarrow> string \<Rightarrow> entity list" where
  "emitted names pat types line =
     (case read_line names pat types line of Appended e \<Rightarrow> [e] | _ \<Rightarrow> [])"

text \<open>
  The pattern of the name filter in words: one or more uppercase letters, then at least one
  digit, then any number of uppercase letters or digits.
\<close>

definition is_upper :: "char \<Rightarrow> bool" where
  "is_upper c \<longleftrightarrow> in_ranges [(CHR ''A'', CHR ''Z'')] c"

definition is_digit :: "char \<Rightarrow> bool" where
  "is_digit c \<longleftrightarrow> in_ranges [(CHR ''0'', CHR ''9'')] c"

definition spec_code_pattern :: "string \<Rightarrow> bool" where
  "spec_code_pattern s \<longleftrightarrow>
     (\<exists>us ds rest. s = us @ ds @ rest \<and>
        us \<noteq> [] \<and> list_all is_upper us \<and>
        ds \<noteq> [] \<and> list_all is_digit ds \<and>
        list_all (\<lambda>c. is_upper c \<or> is_digit c) rest)"

subsection \<open>Example inputs\<close>

text \<open>A table as the text of a file: fields joined by tabs, every row ended by a newline.\<close>

definition tsv_row :: "string list \<Rightarrow> string" where
  "tsv_row cells =
     (case cells of [] \<Rightarrow> [] | f # fs \<Rightarrow> f @ concat (map (\<lambda>x. tab # x) fs)) @ [newline]"

definition header_row :: string where
  "header_row = tsv_row [''MRGID'', ''GeoName'', ''Language'', ''Placetype'']"

definition example_contents :: string where
  "example_contents =
     header_row @
     tsv_row [''1001'', ''North Sea'', ''en'', ''Sea''] @
     tsv_row [''72M7'', ''FAO Code'', ''en'', ''FAO Subdivisions''] @
     tsv_row [''17'', ''As'', ''nl'', ''Town''] @
     tsv_row [''18'', ''H2'', ''en'', ''Sea''] @
     tsv_row [''19'', ''Skagerrak'', ''en''] @
     tsv_row [''1002'', ''North Sea Canal'', ''en'', ''Waterway'']"

definition blank_name_contents :: string where
  "blank_name_contents = header_row @ tsv_row [''1'', '' '', ''en'', ''Sea'']"

definition example_entities :: "entity list" where
  "example_entities =
     [([''North'', ''Sea''], ''1001''),
      ([''North'', ''Sea'', ''Canal''], ''1002''),
      ([''North'', ''Sea''], ''1003'')]"

definition example_heap :: "node list" where
  "example_heap =
     [\<lparr>ids = [], children = [(''North'', 1)]\<rparr>,
      \<lparr>ids = [], children = [(''Sea'', 2)]\<rparr>,
      \<lparr>ids = [''1001'', ''1003''], children = [(''Canal'', 3)]\<rparr>,
      \<lparr>ids = [''1002''], children = []\<rparr>]"

definition example_heap_before :: "node list" where
  "example_heap_before =
     [\<lparr>ids = [], children = [(''North'', 1)]\<rparr>,
      \<lparr>ids = [], children = [(''Sea'', 2)]\<rparr>,
      \<lparr>ids = [''1001''], children = [(''Canal'', 3)]\<rparr>,
      \<lparr>ids = [''1002''], children = []\<rparr>]"

section \<open>Auxiliary facts\<close>

subsection \<open>Walking in a tree-shaped heap\<close>

lemma tree_heap_edge_less: "tree_heap h \<Longrightarrow> edge h a t c \<Longrightarrow> a < c"
  unfolding tree_heap_def by blast

lemma tree_heap_edge_in: "tree_heap h \<Longrightarrow> edge h a t c \<Longrightarrow> c < length h"
  unfolding tree_heap_def by blast

lemma tree_heap_parent:
  "tree_heap h \<Longrightarrow> edge h a t c \<Longrightarrow> edge h b s c \<Longrightarrow> a = b \<and> t = s"
  unfolding tree_heap_def by blast

lemma tree_heap_has_parent:
  "tree_heap h \<Longrightarrow> c < length h \<Longrightarrow> c \<noteq> 0 \<Longrightarrow> \<exists>a t. edge h a t c"
  unfolding tree_heap_def by blast

lemma walk_Cons_Some:
  "walk h a (t # ts) = Some b \<longleftrightarrow> (\<exists>c. edge h a t c \<and> walk h c ts = Some b)"
  by (auto simp: edge_def split: option.splits)

lemma walk_append:
  "walk h a (p @ q) = (case walk h a p of None \<Rightarrow> None | Some b \<Rightarrow> walk h b q)"
  by (induction p arbitrary: a) (auto split: option.splits)

lemma walk_snoc_Some:
  "walk h a (p @ [t]) = Some c \<longleftrightarrow> (\<exists>b. walk h a p = Some b \<and> edge h b t c)"
  by (auto simp: walk_append edge_def split: option.splits if_splits)

lemma walk_mono:
  assumes "\<And>x s c. edge h x s c \<Longrightarrow> edge h' x s c"
  shows "walk h a p = Some b \<Longrightarrow> walk h' a p = Some b"
proof (induction p arbitrary: a)
  case Nil
  then show ?case by simp
next
  case (Cons t p)
  from Cons.prems obtain c where c: "edge h a t c" "walk h c p = Some b"
    unfolding walk_Cons_Some by blast
  from c(1) have "edge h' a t c" by (rule assms)
  moreover from c(2) have "walk h' c p = Some b" by (rule Cons.IH)
  ultimately show ?case unfolding walk_Cons_Some by blast
qed

lemma walk_le:
  assumes "tree_heap h" shows "walk h a p = Some b \<Longrightarrow> a \<le> b"
proof (induction p arbitrary: a)
  case Nil then show ?case by simp
next
  case (Cons t p)
  from Cons.prems obtain c where c: "edge h a t c" "walk h c p = Some b"
    unfolding walk_Cons_Some by blast
  from assms c(1) have "a < c" by (rule tree_heap_edge_less)
  moreover from c(2) have "c \<le> b" by (rule Cons.IH)
  ultimately show ?case by simp
qed

lemma walk_less:
  assumes "tree_heap h" "walk h a p = Some b" "p \<noteq> []" shows "a < b"
proof -
  from assms(3) obtain t q where p: "p = t # q" by (cases p) auto
  from assms(2) obtain c where c: "edge h a t c" "walk h c q = Some b"
    unfolding p walk_Cons_Some by blast
  from assms(1) c(1) have "a < c" by (rule tree_heap_edge_less)
  moreover from assms(1) c(2) have "c \<le> b" by (rule walk_le)
  ultimately show ?thesis by simp
qed

lemma walk_in_heap:
  assumes "tree_heap h" shows "a < length h \<Longrightarrow> walk h a p = Some b \<Longrightarrow> b < length h"
proof (induction p arbitrary: a)
  case Nil then show ?case by simp
next
  case (Cons t p)
  from Cons.prems obtain c where c: "edge h a t c" "walk h c p = Some b"
    unfolding walk_Cons_Some by blast
  from assms c(1) have "c < length h" by (rule tree_heap_edge_in)
  then show ?case using c(2) by (rule Cons.IH)
qed

lemma walk_inj:
  assumes "tree_heap h"
  shows "walk h 0 p = Some a \<Longrightarrow> walk h 0 q = Some a \<Longrightarrow> p = q"
proof (induction p arbitrary: q a rule: rev_induct)
  case Nil
  then have "a = 0" by simp
  with Nil(2) assms show ?case by (cases "q = []") (auto dest: walk_less)
next
  case (snoc t p)
  from snoc.prems(1) obtain b where b: "walk h 0 p = Some b" "edge h b t a"
    unfolding walk_snoc_Some by blast
  from assms b(2) have "b < a" by (rule tree_heap_edge_less)
  then have "a \<noteq> 0" by simp
  with snoc.prems(2) have "q \<noteq> []" by auto
  then obtain q' s where q: "q = q' @ [s]" by (cases q rule: rev_cases) auto
  from snoc.prems(2) obtain b' where b': "walk h 0 q' = Some b'" "edge h b' s a"
    unfolding q walk_snoc_Some by blast
  from assms b(2) b'(2) have "b = b'" "t = s" by (auto dest: tree_heap_parent)
  with b(1) b'(1) have "p = q'" by (auto intro: snoc.IH)
  with q \<open>t = s\<close> show ?case by simp
qed

lemma walk_surj:
  assumes "tree_heap h"
  shows "c < length h \<Longrightarrow> \<exists>p. walk h 0 p = Some c"
proof (induction c rule: less_induct)
  case (less c)
  show ?case
  proof (cases "c = 0")
    case True
    then have "walk h 0 [] = Some c" by simp
    then show ?thesis ..
  next
    case False
    with assms less.prems obtain a t where e: "edge h a t c"
      by (blast dest: tree_heap_has_parent)
    with assms have "a < c" by (rule tree_heap_edge_less)
    moreover from e have "a < length h" by (simp add: edge_def)
    ultimately obtain p where "walk h 0 p = Some a" using less.IH by blast
    with e have "walk h 0 (p @ [t]) = Some c" unfolding walk_snoc_Some by blast
    then show ?thesis ..
  qed
qed

lemma extends_refl: "extends h h"
  unfolding extends_def by (auto intro: exI [of _ 0])

lemma extends_trans:
  assumes "extends h1 h2" "extends h2 h3" shows "extends h1 h3"
proof -
  from assms obtain k l where
    "map ids h2 = map ids h1 @ replicate k []" "map ids h3 = map ids h2 @ replicate l []"
    by (auto simp: extends_def)
  then have "map ids h3 = map ids h1 @ replicate (k + l) []"
    by (simp add: replicate_add)
  with assms show ?thesis unfolding extends_def by blast
qed

lemma extends_length: "extends h h' \<Longrightarrow> length h \<le> length h'"
proof -
  assume "extends h h'"
  then obtain k where "map ids h' = map ids h @ replicate k []"
    by (auto simp: extends_def)
  then have "length (map ids h') = length (map ids h @ replicate k [])" by simp
  then show ?thesis by simp
qed

lemma extends_ids_old:
  assumes "extends h h'" "a < length h" shows "ids (h' ! a) = ids (h ! a)"
proof -
  from assms(1) obtain k where k: "map ids h' = map ids h @ replicate k []"
    by (auto simp: extends_def)
  from assms have "a < length h'" using extends_length by fastforce
  then have "ids (h' ! a) = map ids h' ! a" by simp
  also have "\<dots> = map ids h ! a" using assms(2) by (simp add: k nth_append)
  finally show ?thesis using assms(2) by simp
qed

lemma extends_ids_new:
  assumes "extends h h'" "length h \<le> a" "a < length h'" shows "ids (h' ! a) = []"
proof -
  from assms(1) obtain k where k: "map ids h' = map ids h @ replicate k []"
    by (auto simp: extends_def)
  then have "length (map ids h') = length (map ids h @ replicate k [])" by simp
  then have len: "length h' = length h + k" by simp
  from assms(3) have "ids (h' ! a) = map ids h' ! a" by simp
  also have "\<dots> = []" using assms(2,3) len by (simp add: k nth_append)
  finally show ?thesis .
qed

subsection \<open>The inner loop\<close>

lemma add_child_length: "length (add_child h a t) = Suc (length h)"
  by (simp add: add_child_def alloc_Node_def set_child_def)

lemma add_child_edge:
  assumes "a < length h" "map_of (children (h ! a)) t = None"
  shows "edge (add_child h a t) x s c \<longleftrightarrow> edge h x s c \<or> (x = a \<and> s = t \<and> c = length h)"
proof (cases "x = a")
  case True
  with assms show ?thesis
    by (auto simp: edge_def add_child_def alloc_Node_def set_child_def nth_append update_conv')
next
  case False
  show ?thesis
  proof (cases "x < length h")
    case True
    with False show ?thesis
      by (simp add: edge_def add_child_def alloc_Node_def set_child_def nth_append)
  next
    case False
    with \<open>x \<noteq> a\<close> show ?thesis
      by (auto simp: edge_def add_child_def alloc_Node_def set_child_def nth_append
          less_Suc_eq)
  qed
qed

lemma add_child_ids:
  assumes "a < length h"
  shows "map ids (add_child h a t) = map ids h @ [[]]"
proof -
  let ?h1 = "h @ [\<lparr>ids = [], children = []\<rparr>]"
  have "map ids (add_child h a t) = (map ids ?h1)[a := ids (?h1 ! a)]"
    by (simp add: add_child_def alloc_Node_def set_child_def map_update)
  also have "\<dots> = (map ids ?h1)[a := map ids ?h1 ! a]"
    using assms by (simp add: nth_append)
  also have "\<dots> = map ids ?h1" by (rule list_update_id)
  finally show ?thesis by simp
qed

lemma add_child_extends:
  assumes "a < length h" "map_of (children (h ! a)) t = None"
  shows "extends h (add_child h a t)"
proof -
  have "map ids (add_child h a t) = map ids h @ replicate 1 []"
    using assms(1) by (simp add: add_child_ids)
  then have "\<exists>k. map ids (add_child h a t) = map ids h @ replicate k []" ..
  moreover have "\<forall>x s c. edge h x s c \<longrightarrow> edge (add_child h a t) x s c"
    using assms by (simp add: add_child_edge)
  ultimately show ?thesis unfolding extends_def by blast
qed

lemma add_child_tree_heap:
  assumes "tree_heap h" "a < length h" "map_of (children (h ! a)) t = None"
  shows "tree_heap (add_child h a t)"
proof -
  let ?h' = "add_child h a t"
  note E = add_child_edge [OF assms(2,3)]
  have len: "length ?h' = Suc (length h)" by (rule add_child_length)
  have 1: "0 < length ?h'" using len by simp
  have 2: "x < c \<and> c < length ?h'" if "edge ?h' x s c" for x s c
    using that assms(1,2) unfolding E len
    by (auto dest: tree_heap_edge_less tree_heap_edge_in)
  have 3: "x = y \<and> s = r" if "edge ?h' x s c" "edge ?h' y r c" for x s y r c
    using that assms(1) unfolding E
    by (auto dest: tree_heap_parent tree_heap_edge_in)
  have 4: "\<exists>x s. edge ?h' x s c" if "c < length ?h'" "c \<noteq> 0" for c
  proof (cases "c < length h")
    case True
    with assms(1) that(2) obtain x s where "edge h x s c"
      by (blast dest: tree_heap_has_parent)
    then show ?thesis unfolding E by blast
  next
    case False
    with that(1) len have "c = length h" by simp
    then show ?thesis unfolding E by blast
  qed
  from 1 2 3 4 show ?thesis unfolding tree_heap_def by blast
qed

lemma descend_None:
  assumes "map_of (children (heap st ! a)) t = None"
  shows "descend st a (t # ts) =
           descend (st\<lparr>heap := add_child (heap st) a t, node_count := node_count st + 1\<rparr>)
             (length (heap st)) ts"
  using assms by (simp add: add_child_def alloc_Node_def)

lemma descend_Some:
  assumes "map_of (children (heap st ! a)) t = Some c"
  shows "descend st a (t # ts) = descend st c ts"
  using assms by simp

lemma descend_tree_heap:
  "tree_heap (heap st) \<Longrightarrow> a < length (heap st) \<Longrightarrow> descend st a ts = (b, st') \<Longrightarrow>
     tree_heap (heap st') \<and> extends (heap st) (heap st') \<and> walk (heap st') a ts = Some b"
proof (induction ts arbitrary: st a)
  case Nil
  then show ?case by (simp add: extends_refl)
next
  case (Cons t ts)
  let ?h = "heap st"
  show ?case
  proof (cases "map_of (children (?h ! a)) t")
    case (Some c)
    with Cons.prems(2) have e: "edge ?h a t c" by (simp add: edge_def)
    with Cons.prems(1) have c: "c < length ?h" by (rule tree_heap_edge_in)
    from Cons.prems(3) Some have "descend st c ts = (b, st')" by simp
    with Cons.prems(1) c have IH: "tree_heap (heap st')" "extends ?h (heap st')"
        "walk (heap st') c ts = Some b"
      using Cons.IH by blast+
    from IH(2) e have "edge (heap st') a t c" unfolding extends_def by blast
    with IH(3) have "walk (heap st') a (t # ts) = Some b"
      unfolding walk_Cons_Some by blast
    with IH(1,2) show ?thesis by simp
  next
    case None
    let ?h1 = "add_child ?h a t"
    let ?st1 = "st\<lparr>heap := ?h1, node_count := node_count st + 1\<rparr>"
    from Cons.prems(3) None have d: "descend ?st1 (length ?h) ts = (b, st')"
      by (simp only: descend_None)
    from Cons.prems(1,2) None have t1: "tree_heap (heap ?st1)"
      by (simp add: add_child_tree_heap)
    have n: "length ?h < length (heap ?st1)" by (simp add: add_child_length)
    from t1 n d have IH: "tree_heap (heap st')" "extends (heap ?st1) (heap st')"
        "walk (heap st') (length ?h) ts = Some b"
      using Cons.IH by blast+
    from Cons.prems(2) None have x1: "extends ?h ?h1" by (rule add_child_extends)
    with IH(2) have x: "extends ?h (heap st')" by (auto intro: extends_trans)
    from Cons.prems(2) None have "edge ?h1 a t (length ?h)" by (simp add: add_child_edge)
    with IH(2) have "edge (heap st') a t (length ?h)" unfolding extends_def by simp
    with IH(3) have "walk (heap st') a (t # ts) = Some b"
      unfolding walk_Cons_Some by blast
    with IH(1) x show ?thesis by simp
  qed
qed

lemma descend_node_count:
  "descend st a ts = (b, st') \<Longrightarrow>
     node_count st' + length (heap st) = node_count st + length (heap st') \<and>
     token_count st' = token_count st"
proof (induction ts arbitrary: st a)
  case Nil
  then show ?case by simp
next
  case (Cons t ts)
  show ?case
  proof (cases "map_of (children (heap st ! a)) t")
    case (Some c)
    with Cons.prems have "descend st c ts = (b, st')" by simp
    then show ?thesis by (rule Cons.IH)
  next
    case None
    let ?st1 = "st\<lparr>heap := add_child (heap st) a t, node_count := node_count st + 1\<rparr>"
    from Cons.prems None have "descend ?st1 (length (heap st)) ts = (b, st')"
      by (simp only: descend_None)
    then have "node_count st' + length (heap ?st1) = node_count ?st1 + length (heap st') \<and>
       token_count st' = token_count ?st1"
      by (rule Cons.IH)
    then show ?thesis by (simp add: add_child_length)
  qed
qed

lemma descend_existing:
  "walk (heap st) a ts = Some b \<Longrightarrow> descend st a ts = (b, st)"
proof (induction ts arbitrary: a)
  case Nil
  then show ?case by simp
next
  case (Cons t ts)
  from Cons.prems obtain c where c: "edge (heap st) a t c" "walk (heap st) c ts = Some b"
    unfolding walk_Cons_Some by blast
  from c(2) have "descend st c ts = (b, st)" by (rule Cons.IH)
  with c(1) show ?case by (simp add: edge_def)
qed

subsection \<open>The outer loop\<close>

lemma ids_append_length [simp]: "length (ids_append h b i) = length h"
  by (simp add: ids_append_def)

lemma ids_append_edge [simp]: "edge (ids_append h b i) x s c \<longleftrightarrow> edge h x s c"
  by (cases "x = b") (auto simp: edge_def ids_append_def)

lemma ids_append_tree_heap: "tree_heap h \<Longrightarrow> tree_heap (ids_append h b i)"
  unfolding tree_heap_def by simp

lemma ids_append_walk [simp]: "walk (ids_append h b i) a p = walk h a p"
proof (induction p arbitrary: a)
  case Nil show ?case by simp
next
  case (Cons t p)
  have "map_of (children (ids_append h b i ! a)) t = map_of (children (h ! a)) t"
    if "a < length h"
    using that by (cases "a = b") (simp_all add: ids_append_def)
  with Cons show ?case by (auto split: option.splits)
qed

lemma ids_append_ids:
  "a < length h \<Longrightarrow> ids (ids_append h b i ! a) = (if a = b then ids (h ! a) @ [i] else ids (h ! a))"
  by (simp add: ids_append_def)

lemma ids_append_sum:
  assumes "b < length h"
  shows "sum_list (map (length \<circ> ids) (ids_append h b i)) = Suc (sum_list (map (length \<circ> ids) h))"
proof -
  have "map (length \<circ> ids) (ids_append h b i) = (map (length \<circ> ids) h)[b := Suc (length (ids (h ! b)))]"
    by (simp add: ids_append_def map_update)
  moreover have "sum_list ((map (length \<circ> ids) h)[b := Suc (length (ids (h ! b)))])
      = sum_list (map (length \<circ> ids) h) + Suc (length (ids (h ! b))) - map (length \<circ> ids) h ! b"
    using assms by (simp add: sum_list_update)
  moreover have "map (length \<circ> ids) h ! b \<le> sum_list (map (length \<circ> ids) h)"
    using assms by (simp add: member_le_sum_list)
  ultimately show ?thesis using assms by simp
qed

lemma extends_sum:
  assumes "extends h h'"
  shows "sum_list (map (length \<circ> ids) h') = sum_list (map (length \<circ> ids) h)"
proof -
  from assms obtain k where k: "map ids h' = map ids h @ replicate k []"
    by (auto simp: extends_def)
  have "map (length \<circ> ids) h' = map length (map ids h')" by simp
  also have "\<dots> = map (length \<circ> ids) h @ replicate k 0" unfolding k by simp
  finally show ?thesis by (simp add: sum_list_replicate)
qed

lemma ids_of_snoc:
  "ids_of (es @ [(ts, i)]) p = (if p = ts then ids_of es p @ [i] else ids_of es p)"
  by (auto simp: ids_of_def)

lemma insert_entity_inv:
  assumes inv: "trie_inv es st"
  shows "trie_inv (es @ [(ts, i)]) (insert_entity 0 st (ts, i))"
proof -
  let ?st1 = "st\<lparr>token_count := token_count st + length ts\<rparr>"
  let ?h = "heap st"
  obtain b st2 where d: "descend ?st1 0 ts = (b, st2)" by (cases "descend ?st1 0 ts")
  let ?h2 = "heap st2"
  let ?st3 = "st2\<lparr>heap := ids_append ?h2 b i\<rparr>"
  have res: "insert_entity 0 st (ts, i) = ?st3"
    by (simp add: insert_entity_def d)
  from inv have th: "tree_heap ?h" by (simp add: trie_inv_def)
  then have ne: "0 < length ?h" by (simp add: tree_heap_def)
  from th ne d have t2: "tree_heap ?h2" and ext: "extends ?h ?h2"
    and wb: "walk ?h2 0 ts = Some b"
    using descend_tree_heap [of ?st1 0 ts b st2] by simp_all
  from ext have mono: "\<And>p a. walk ?h 0 p = Some a \<Longrightarrow> walk ?h2 0 p = Some a"
    unfolding extends_def by (blast intro: walk_mono)
  from ext have len: "length ?h \<le> length ?h2" by (rule extends_length)
  with ne have ne2: "0 < length ?h2" by (rule less_le_trans)
  from t2 ne2 wb have b: "b < length ?h2" by (rule walk_in_heap)
  have 1: "tree_heap (heap ?st3)" using t2 by (simp add: ids_append_tree_heap)
  have 2: "\<exists>a. walk (heap ?st3) 0 (fst e) = Some a" if "e \<in> set (es @ [(ts, i)])" for e
  proof (cases "e \<in> set es")
    case True
    with inv obtain a where "walk ?h 0 (fst e) = Some a" unfolding trie_inv_def by blast
    then have "walk ?h2 0 (fst e) = Some a" by (rule mono)
    then show ?thesis by simp
  next
    case False
    with that have "e = (ts, i)" by simp
    with wb show ?thesis by simp
  qed
  have old: "ids (?h2 ! a) = ids_of es p" if w: "walk ?h2 0 p = Some a" for p a
  proof (cases "a < length ?h")
    case True
    with th obtain q where q: "walk ?h 0 q = Some a" by (blast dest: walk_surj)
    then have "walk ?h2 0 q = Some a" by (rule mono)
    with t2 w have "p = q" by (rule walk_inj)
    with q inv have "ids (?h ! a) = ids_of es p" unfolding trie_inv_def by blast
    with ext True show ?thesis by (simp add: extends_ids_old)
  next
    case False
    from t2 ne2 w have a2: "a < length ?h2" by (rule walk_in_heap)
    have "fst e \<noteq> p" if e: "e \<in> set es" for e
    proof
      assume "fst e = p"
      with e inv obtain a' where a': "walk ?h 0 p = Some a'" unfolding trie_inv_def by blast
      with th ne have "a' < length ?h" by (blast intro: walk_in_heap)
      moreover from a' have "walk ?h2 0 p = Some a'" by (rule mono)
      with w have "a' = a" by simp
      ultimately show False using False by simp
    qed
    then have "ids_of es p = []" by (auto simp: ids_of_def filter_empty_conv)
    moreover from ext False a2 have "ids (?h2 ! a) = []" by (simp add: extends_ids_new)
    ultimately show ?thesis by simp
  qed
  have 3: "ids (heap ?st3 ! a) = ids_of (es @ [(ts, i)]) p" if w: "walk (heap ?st3) 0 p = Some a" for p a
  proof -
    from w have w2: "walk ?h2 0 p = Some a" by simp
    with t2 ne2 have a2: "a < length ?h2" by (rule walk_in_heap)
    have "a = b \<longleftrightarrow> p = ts"
    proof
      assume "a = b"
      with w2 wb t2 show "p = ts" by (auto intro: walk_inj)
    next
      assume "p = ts"
      with w2 wb show "a = b" by simp
    qed
    with a2 old [OF w2] show ?thesis by (simp add: ids_append_ids ids_of_snoc)
  qed
  have 4: "sum_list (map (length \<circ> ids) (heap ?st3)) = length (es @ [(ts, i)])"
  proof -
    from inv have "sum_list (map (length \<circ> ids) ?h) = length es" by (simp add: trie_inv_def)
    with ext have "sum_list (map (length \<circ> ids) ?h2) = length es" by (simp add: extends_sum)
    with b show ?thesis by (simp add: ids_append_sum)
  qed
  from d have "node_count st2 + length (heap ?st1) = node_count ?st1 + length ?h2 \<and>
      token_count st2 = token_count ?st1"
    by (rule descend_node_count)
  with inv have 5: "node_count ?st3 = length (heap ?st3)"
    and 6: "token_count ?st3 = sum_list (map (length \<circ> fst) (es @ [(ts, i)]))"
    by (simp_all add: trie_inv_def)
  from 1 2 3 4 5 6 show ?thesis unfolding res trie_inv_def by blast
qed

lemma build_loop_root [simp]: "fst (build_loop es) = 0"
  by (simp add: build_loop_def alloc_Node_def)

lemma build_state_of_Nil:
  "build_state_of [] = \<lparr>heap = [\<lparr>ids = [], children = []\<rparr>], node_count = 1, token_count = 0\<rparr>"
  by (simp add: build_state_of_def build_loop_def alloc_Node_def)

lemma build_state_of_snoc:
  "build_state_of (es @ [e]) = insert_entity 0 (build_state_of es) e"
  by (simp add: build_state_of_def build_loop_def alloc_Node_def)

lemma trie_inv_Nil: "trie_inv [] (build_state_of [])"
proof -
  let ?h = "[\<lparr>ids = [], children = []\<rparr>]"
  have e: "\<not> edge ?h a t c" for a t c by (cases a) (simp_all add: edge_def)
  then have t: "tree_heap ?h" unfolding tree_heap_def by simp
  have "ids (?h ! a) = ids_of [] p" if "walk ?h 0 p = Some a" for p a
  proof -
    have "0 < length ?h" by simp
    with t have "a < length ?h" using that by (rule walk_in_heap)
    then show ?thesis by (simp add: ids_of_def)
  qed
  with t show ?thesis by (simp add: trie_inv_def build_state_of_Nil)
qed

lemma build_inv: "trie_inv es (build_state_of es)"
proof (induction es rule: rev_induct)
  case Nil
  show ?case by (rule trie_inv_Nil)
next
  case (snoc e es)
  obtain ts i where e: "e = (ts, i)" by (cases e)
  from snoc show ?case unfolding e build_state_of_snoc by (rule insert_entity_inv)
qed

lemma build_trie_eq: "build_trie es = (0, heap (build_state_of es))"
  by (simp add: build_trie_def build_state_of_def split_beta)

subsection \<open>Lines, fields and the pattern\<close>

lemma foldl_loop_step:
  "foldl (loop_step names pat types) acc ls = acc @ concat (map (emitted names pat types) ls)"
  by (induction ls arbitrary: acc) (auto simp: loop_step_def emitted_def split: line_result.splits)

lemma read_lines_concat:
  "read_lines names pat types ls = concat (map (emitted names pat types) ls)"
  by (simp add: read_lines_def foldl_loop_step)

lemma read_lines_append:
  "read_lines names pat types (xs @ ys) = read_lines names pat types xs @ read_lines names pat types ys"
  by (simp add: read_lines_concat)

lemma file_lines_shape:
  "l \<in> set (file_lines contents) \<Longrightarrow> l \<noteq> [] \<and> newline \<notin> set (butlast l)"
proof (induction contents arbitrary: l)
  case Nil
  then show ?case by simp
next
  case (Cons c cs)
  show ?case
  proof (cases "c = newline")
    case True
    with Cons show ?thesis by auto
  next
    case False
    show ?thesis
    proof (cases "file_lines cs")
      case Nil
      with False Cons.prems show ?thesis by simp
    next
      case (Cons l' ls)
      with False Cons.prems have "l = c # l' \<or> l \<in> set ls" by simp
      then show ?thesis
      proof
        assume l: "l = c # l'"
        from Cons have "l' \<in> set (file_lines cs)" by simp
        then have "l' \<noteq> [] \<and> newline \<notin> set (butlast l')" by (rule Cons.IH)
        with l False show ?thesis by simp
      next
        assume "l \<in> set ls"
        with Cons have "l \<in> set (file_lines cs)" by simp
        then show ?thesis by (rule Cons.IH)
      qed
    qed
  qed
qed

lemma rstrip_no_newline:
  assumes "newline \<notin> set (butlast l)"
  shows "newline \<notin> set (rstrip newline l)"
proof (cases l rule: rev_cases)
  case Nil
  then show ?thesis by (simp add: rstrip_def)
next
  case (snoc ys y)
  with assms have ys: "newline \<notin> set ys" by simp
  show ?thesis
  proof (cases "y = newline")
    case True
    have "set (dropWhile (\<lambda>c. c = newline) (rev ys)) \<subseteq> set ys"
      using set_dropWhileD [of _ "\<lambda>c. c = newline" "rev ys"] by auto
    with ys True snoc show ?thesis by (auto simp: rstrip_def)
  next
    case False
    with ys snoc show ?thesis by (simp add: rstrip_def)
  qed
qed

lemma split_sep_fields:
  "f \<in> set (split_sep sep s) \<Longrightarrow> set f \<subseteq> set s"
proof (induction s arbitrary: f)
  case Nil
  then show ?case by simp
next
  case (Cons c cs)
  show ?case
  proof (cases "c = sep")
    case True
    with Cons.prems have "f = [] \<or> f \<in> set (split_sep sep cs)" by simp
    with Cons.IH show ?thesis by auto
  next
    case False
    show ?thesis
    proof (cases "split_sep sep cs")
      case Nil
      with False Cons.prems show ?thesis by simp
    next
      case (Cons w ws)
      with False Cons.prems have "f = c # w \<or> f \<in> set ws" by simp
      moreover from Cons have "set w \<subseteq> set cs" by (simp add: Cons.IH)
      moreover from Cons have "\<And>g. g \<in> set ws \<Longrightarrow> set g \<subseteq> set cs" by (simp add: Cons.IH)
      ultimately show ?thesis by auto
    qed
  qed
qed

lemma re_match_MAX_REPEAT:
  "re_match (MAX_REPEAT n rs # ops) b s \<longleftrightarrow>
     (\<exists>pre post. s = pre @ post \<and> n \<le> length pre \<and> list_all (in_ranges rs) pre \<and>
        re_match ops (b \<and> pre = []) post)"
proof (induction s arbitrary: n b)
  case Nil
  then show ?case by auto
next
  case (Cons c cs)
  have "re_match (MAX_REPEAT n rs # ops) b (c # cs) \<longleftrightarrow>
      (in_ranges rs c \<and> re_match (MAX_REPEAT (n - 1) rs # ops) False cs) \<or>
      (n = 0 \<and> re_match ops b (c # cs))"
    by simp
  also have "\<dots> \<longleftrightarrow>
      (in_ranges rs c \<and> (\<exists>pre post. cs = pre @ post \<and> n - 1 \<le> length pre \<and>
         list_all (in_ranges rs) pre \<and> re_match ops False post)) \<or>
      (n = 0 \<and> re_match ops b (c # cs))"
    by (simp only: Cons.IH simp_thms)
  also have "\<dots> \<longleftrightarrow>
      (\<exists>pre post. c # cs = pre @ post \<and> n \<le> length pre \<and> list_all (in_ranges rs) pre \<and>
        re_match ops (b \<and> pre = []) post)"
    (is "?L \<longleftrightarrow> ?R")
  proof
    assume ?L
    then show ?R
    proof
      assume "in_ranges rs c \<and> (\<exists>pre post. cs = pre @ post \<and> n - 1 \<le> length pre \<and>
         list_all (in_ranges rs) pre \<and> re_match ops False post)"
      then obtain pre post where "in_ranges rs c" "cs = pre @ post" "n - 1 \<le> length pre"
        "list_all (in_ranges rs) pre" "re_match ops False post" by blast
      then have "c # cs = (c # pre) @ post \<and> n \<le> length (c # pre) \<and>
        list_all (in_ranges rs) (c # pre) \<and> re_match ops (b \<and> c # pre = []) post"
        by simp
      then show ?R by blast
    next
      assume "n = 0 \<and> re_match ops b (c # cs)"
      then have "c # cs = [] @ (c # cs) \<and> n \<le> length ([] :: string) \<and>
        list_all (in_ranges rs) [] \<and> re_match ops (b \<and> ([] :: string) = []) (c # cs)"
        by simp
      then show ?R by blast
    qed
  next
    assume ?R
    then obtain pre post where p: "c # cs = pre @ post" "n \<le> length pre"
      "list_all (in_ranges rs) pre" "re_match ops (b \<and> pre = []) post" by blast
    show ?L
    proof (cases pre)
      case Nil
      with p show ?thesis by simp
    next
      case (Cons d pre')
      with p have "in_ranges rs c" "cs = pre' @ post" "n - 1 \<le> length pre'"
        "list_all (in_ranges rs) pre'" "re_match ops False post" by auto
      then show ?thesis by blast
    qed
  qed
  finally show ?case .
qed

lemma in_ranges_union:
  "in_ranges [(CHR ''A'', CHR ''Z''), (CHR ''0'', CHR ''9'')] c \<longleftrightarrow> is_upper c \<or> is_digit c"
  by (simp add: in_ranges_def is_upper_def is_digit_def)

lemma not_class_newline: "\<not> is_upper newline" "\<not> is_digit newline"
  by (simp_all add: is_upper_def is_digit_def in_ranges_def newline_def)

lemma pat_match_iff:
  "re_match SKIPPED_GEO_NAMES_PAT True s \<longleftrightarrow>
     (\<exists>us d rest tail. s = us @ d # rest @ tail \<and> us \<noteq> [] \<and> list_all is_upper us \<and>
        is_digit d \<and> list_all (\<lambda>c. is_upper c \<or> is_digit c) rest \<and>
        (tail = [] \<or> tail = [newline]))"
  (is "?L \<longleftrightarrow> ?R")
proof
  assume ?L
  then obtain us p1 where 1: "s = us @ p1" "1 \<le> length us" "list_all is_upper us"
    and m1: "re_match [IN [(CHR ''0'', CHR ''9'')],
        MAX_REPEAT 0 [(CHR ''A'', CHR ''Z''), (CHR ''0'', CHR ''9'')], AT_END] False p1"
    unfolding SKIPPED_GEO_NAMES_PAT_def re_match.simps(2) re_match_MAX_REPEAT is_upper_def [abs_def]
    by auto
  from m1 obtain d p2 where 2: "p1 = d # p2" "is_digit d"
    and m2: "re_match [MAX_REPEAT 0 [(CHR ''A'', CHR ''Z''), (CHR ''0'', CHR ''9'')], AT_END] False p2"
    by (cases p1) (auto simp: is_digit_def)
  from m2 obtain rest tail where 3: "p2 = rest @ tail"
    "list_all (\<lambda>c. is_upper c \<or> is_digit c) rest" "tail = [] \<or> tail = [newline]"
    unfolding re_match_MAX_REPEAT by (auto simp: in_ranges_union [abs_def])
  from 1 2 3 show ?R by (intro exI [of _ us] exI [of _ d] exI [of _ rest] exI [of _ tail]) auto
next
  assume ?R
  then obtain us d rest tail where r: "s = us @ d # rest @ tail" "us \<noteq> []" "list_all is_upper us"
    "is_digit d" "list_all (\<lambda>c. is_upper c \<or> is_digit c) rest" "tail = [] \<or> tail = [newline]"
    by blast
  from r(5,6) have m2: "re_match [MAX_REPEAT 0 [(CHR ''A'', CHR ''Z''), (CHR ''0'', CHR ''9'')], AT_END]
      False (rest @ tail)"
    unfolding re_match_MAX_REPEAT
    by (intro exI [of _ rest] exI [of _ tail]) (auto simp: in_ranges_union [abs_def])
  with r(4) have m1: "re_match [IN [(CHR ''0'', CHR ''9'')],
        MAX_REPEAT 0 [(CHR ''A'', CHR ''Z''), (CHR ''0'', CHR ''9'')], AT_END] False (d # rest @ tail)"
    by (simp add: is_digit_def)
  from r(2) have "1 \<le> length us" by (cases us) auto
  with r(1,3) m1 show ?L
    unfolding SKIPPED_GEO_NAMES_PAT_def re_match.simps(2) re_match_MAX_REPEAT
    by (intro conjI exI [of _ us] exI [of _ "d # rest @ tail"])
       (auto simp: is_upper_def [abs_def])
qed


subsection \<open>The finished trie\<close>

lemma build_trie_inv:
  assumes "build_trie entities = (trie, h)"
  shows "trie = 0" and "h = heap (build_state_of entities)"
    and "trie_inv entities (build_state_of entities)"
  using assms by (simp_all add: build_trie_eq build_inv)

lemma build_trie_tree_heap:
  assumes "build_trie entities = (trie, h)"
  shows "tree_heap h"
  using build_trie_inv [OF assms] by (simp add: trie_inv_def)

lemma build_trie_walk_entity:
  assumes "build_trie entities = (trie, h)" "(tokens, i) \<in> set entities"
  shows "\<exists>node. walk h 0 tokens = Some node"
proof -
  from build_trie_inv [OF assms(1)]
  have "\<forall>e \<in> set entities. \<exists>a. walk h 0 (fst e) = Some a" by (simp add: trie_inv_def)
  with assms(2) show ?thesis by fastforce
qed

lemma build_trie_ids:
  assumes "build_trie entities = (trie, h)" "walk h 0 p = Some node"
  shows "ids (h ! node) = ids_of entities p"
  using build_trie_inv [OF assms(1)] assms(2) by (simp add: trie_inv_def)

lemma example_build: "build_trie example_entities = (0, example_heap)"
  by (simp add: build_trie_def build_loop_def insert_entity_def alloc_Node_def set_child_def
      ids_append_def example_entities_def example_heap_def)

lemma insert_entity_walk_mono:
  assumes "tree_heap (heap st)" "walk (heap st) 0 p = Some a"
  shows "walk (heap (insert_entity 0 st e)) 0 p = Some a"
proof -
  obtain ts i where e: "e = (ts, i)" by (cases e)
  let ?st1 = "st\<lparr>token_count := token_count st + length ts\<rparr>"
  obtain b st2 where d: "descend ?st1 0 ts = (b, st2)" by (cases "descend ?st1 0 ts")
  from assms(1) have "0 < length (heap st)" by (simp add: tree_heap_def)
  with assms(1) d have "extends (heap st) (heap st2)"
    using descend_tree_heap [of ?st1 0 ts b st2] by simp
  then have "walk (heap st2) 0 p = Some a"
    using assms(2) unfolding extends_def by (blast intro: walk_mono)
  then show ?thesis by (simp add: e insert_entity_def d)
qed

lemma build_walk_mono:
  assumes "walk (heap (build_state_of es)) 0 p = Some a"
  shows "walk (heap (build_state_of (es @ es'))) 0 p = Some a"
proof (induction es' rule: rev_induct)
  case Nil
  from assms show ?case by simp
next
  case (snoc e es')
  have "tree_heap (heap (build_state_of (es @ es')))"
    using build_inv [of "es @ es'"] by (simp add: trie_inv_def)
  then have "walk (heap (insert_entity 0 (build_state_of (es @ es')) e)) 0 p = Some a"
    using snoc by (rule insert_entity_walk_mono)
  then show ?case by (simp add: build_state_of_snoc [symmetric])
qed

lemma insert_entity_existing:
  assumes "walk (heap st) 0 ts = Some node"
  shows "insert_entity 0 st (ts, i) =
           st\<lparr>heap := ids_append (heap st) node i, token_count := token_count st + length ts\<rparr>"
proof -
  let ?st1 = "st\<lparr>token_count := token_count st + length ts\<rparr>"
  from assms have "walk (heap ?st1) 0 ts = Some node" by simp
  then have "descend ?st1 0 ts = (node, ?st1)" by (rule descend_existing)
  then show ?thesis by (simp add: insert_entity_def)
qed

lemma build_trie_snoc_existing:
  assumes "build_trie es = (trie, h)" "walk h trie ts = Some node"
  shows "build_trie (es @ [(ts, i)]) = (trie, ids_append h node i)"
proof -
  from assms(1) have r: "trie = 0" and h: "h = heap (build_state_of es)"
    by (rule build_trie_inv(1), rule build_trie_inv(2))
  from assms(2) have "walk (heap (build_state_of es)) 0 ts = Some node" by (simp add: r h)
  then have "insert_entity 0 (build_state_of es) (ts, i) =
      (build_state_of es)\<lparr>heap := ids_append (heap (build_state_of es)) node i,
        token_count := token_count (build_state_of es) + length ts\<rparr>"
    by (rule insert_entity_existing)
  then show ?thesis by (simp add: build_trie_eq build_state_of_snoc r h)
qed

lemma ids_append_children: "map children (ids_append h node i) = map children h"
proof -
  have "map children (ids_append h node i) = (map children h)[node := children (h ! node)]"
    by (simp add: ids_append_def map_update)
  also have "\<dots> = map children h"
  proof (cases "node < length h")
    case True
    then have "children (h ! node) = map children h ! node" by simp
    then have "(map children h)[node := children (h ! node)] =
        (map children h)[node := map children h ! node]" by simp
    then show ?thesis by (simp only: list_update_id)
  next
    case False
    then show ?thesis by (simp add: list_update_beyond)
  qed
  finally show ?thesis .
qed

lemma reachable_build:
  assumes "build_trie entities = (trie, h)"
  shows "reachable h trie = {0..<length h}"
proof -
  from assms have t: "tree_heap h" and r: "trie = 0"
    by (rule build_trie_tree_heap, rule build_trie_inv(1))
  from t have ne: "0 < length h" by (simp add: tree_heap_def)
  have "node < length h" if "walk h 0 p = Some node" for p node
    using t ne that by (rule walk_in_heap)
  moreover have "\<exists>p. walk h 0 p = Some node" if "node < length h" for node
    using t that by (rule walk_surj)
  ultimately show ?thesis unfolding reachable_def r by auto
qed


lemma walk_prefix:
  assumes "walk h a p = Some b"
  shows "\<exists>c. walk h a (take n p) = Some c"
proof -
  have "walk h a (take n p @ drop n p) = Some b" using assms by simp
  then show ?thesis unfolding walk_append by (cases "walk h a (take n p)") simp_all
qed

subsection \<open>Splitting names, and the fields of a line\<close>

lemma split_ws_Nil:
  assumes "dropWhile isspace s = []"
  shows "split_ws s = []"
proof -
  have "split_ws s = (case dropWhile isspace s of [] \<Rightarrow> []
      | c # cs \<Rightarrow> takeWhile (\<lambda>x. \<not> isspace x) (c # cs)
                  # split_ws (dropWhile (\<lambda>x. \<not> isspace x) (c # cs)))"
    by (rule split_ws.simps)
  also have "\<dots> = []" unfolding assms by (simp only: list.case)
  finally show ?thesis .
qed

lemma split_ws_Cons:
  assumes "dropWhile isspace s = c # cs"
  shows "split_ws s = takeWhile (\<lambda>x. \<not> isspace x) (c # cs)
                  # split_ws (dropWhile (\<lambda>x. \<not> isspace x) (c # cs))"
proof -
  have "split_ws s = (case dropWhile isspace s of [] \<Rightarrow> []
      | c # cs \<Rightarrow> takeWhile (\<lambda>x. \<not> isspace x) (c # cs)
                  # split_ws (dropWhile (\<lambda>x. \<not> isspace x) (c # cs)))"
    by (rule split_ws.simps)
  also have "\<dots> = takeWhile (\<lambda>x. \<not> isspace x) (c # cs)
                  # split_ws (dropWhile (\<lambda>x. \<not> isspace x) (c # cs))"
    unfolding assms by (simp only: list.case)
  finally show ?thesis .
qed

lemma split_ws_no_empty: "[] \<notin> set (split_ws s)"
proof (induction s rule: split_ws.induct)
  case (1 s)
  show ?case
  proof (cases "dropWhile isspace s")
    case Nil
    then have "split_ws s = []" by (rule split_ws_Nil)
    then show ?thesis by simp
  next
    case (Cons c cs)
    then have "\<not> isspace c" using hd_dropWhile [of isspace s] by auto
    then have "takeWhile (\<lambda>x. \<not> isspace x) (c # cs) \<noteq> []" by simp
    moreover from Cons have "[] \<notin> set (split_ws (dropWhile (\<lambda>x. \<not> isspace x) (c # cs)))"
      by (rule "1.IH")
    ultimately show ?thesis unfolding split_ws_Cons [OF Cons] by auto
  qed
qed

lemma split_ws_Nil_iff: "split_ws s = [] \<longleftrightarrow> list_all isspace s"
proof (cases "dropWhile isspace s")
  case Nil
  then have "split_ws s = []" by (rule split_ws_Nil)
  moreover from Nil have "list_all isspace s" by (simp add: list_all_iff)
  ultimately show ?thesis by simp
next
  case (Cons c cs)
  then have "split_ws s \<noteq> []" by (simp add: split_ws_Cons)
  moreover from Cons have "\<not> list_all isspace s"
    using dropWhile_eq_Nil_conv [of isspace s] by (auto simp: list_all_iff)
  ultimately show ?thesis by simp
qed

lemma unpack4_Inr:
  "unpack4 fs = Inr (a, b, c, d) \<longleftrightarrow> fs = [a, b, c, d]"
  by (cases fs rule: unpack4.cases) auto

lemma unpack4_Inl: "unpack4 fs = Inl e \<longleftrightarrow> length fs \<noteq> 4 \<and> e = ValueError"
  by (cases fs rule: unpack4.cases) auto

lemma read_line_fields:
  assumes "split_sep tab (rstrip newline line) = [mrgid, geo_name, language, place_type]"
  shows "read_line names pat types line =
     (if place_type \<in> types \<or> geo_name \<in> names \<or> re_match pat True geo_name
      then Skipping else Appended (split_ws geo_name, mrgid))"
  using assms by (simp add: read_line_def)

lemma read_line_ill_formed:
  "read_line names pat types line = Ill_formed \<longleftrightarrow>
     length (split_sep tab (rstrip newline line)) \<noteq> 4"
proof (cases "unpack4 (split_sep tab (rstrip newline line))")
  case (Inl e)
  then have "length (split_sep tab (rstrip newline line)) \<noteq> 4" by (simp add: unpack4_Inl)
  moreover from Inl have "read_line names pat types line = Ill_formed"
    by (simp add: read_line_def)
  ultimately show ?thesis by simp
next
  case (Inr f)
  obtain a b c d where f: "f = (a, b, c, d)" by (cases f) auto
  with Inr have "split_sep tab (rstrip newline line) = [a, b, c, d]" by (simp add: unpack4_Inr)
  then show ?thesis by (simp add: read_line_fields)
qed


lemma pat_match_spec:
  assumes "newline \<notin> set s"
  shows "re_match SKIPPED_GEO_NAMES_PAT True s \<longleftrightarrow> spec_code_pattern s"
proof
  assume "re_match SKIPPED_GEO_NAMES_PAT True s"
  then obtain us d rest tail where r: "s = us @ d # rest @ tail" "us \<noteq> []"
    "list_all is_upper us" "is_digit d" "list_all (\<lambda>c. is_upper c \<or> is_digit c) rest"
    "tail = [] \<or> tail = [newline]"
    unfolding pat_match_iff by blast
  from assms r(1,6) have "tail = []" by auto
  with r have "s = us @ [d] @ rest \<and> us \<noteq> [] \<and> list_all is_upper us \<and> [d] \<noteq> [] \<and>
    list_all is_digit [d] \<and> list_all (\<lambda>c. is_upper c \<or> is_digit c) rest"
    by simp
  then show "spec_code_pattern s" unfolding spec_code_pattern_def by blast
next
  assume "spec_code_pattern s"
  then obtain us ds rest where r: "s = us @ ds @ rest" "us \<noteq> []" "list_all is_upper us"
    "ds \<noteq> []" "list_all is_digit ds" "list_all (\<lambda>c. is_upper c \<or> is_digit c) rest"
    unfolding spec_code_pattern_def by blast
  from r(4) obtain d ds' where ds: "ds = d # ds'" by (cases ds) auto
  with r(5) have d: "is_digit d" and ds': "list_all (\<lambda>c. is_upper c \<or> is_digit c) ds'"
    by (auto simp: list_all_iff)
  from r(1) ds have "s = us @ d # (ds' @ rest) @ []" by simp
  moreover from ds' r(6) have "list_all (\<lambda>c. is_upper c \<or> is_digit c) (ds' @ rest)" by simp
  ultimately show "re_match SKIPPED_GEO_NAMES_PAT True s"
    unfolding pat_match_iff using r(2,3) d by blast
qed

text \<open>
  The pattern asks for a letter first: a code that begins with a digit, such as
  \<^verbatim>\<open>72M7\<close>, does not match it, and a record with such a name is dropped only if its
  place type is excluded.
\<close>

lemma pattern_rejects_leading_digit: "\<not> re_match SKIPPED_GEO_NAMES_PAT True ''72M7''"
  by (simp add: SKIPPED_GEO_NAMES_PAT_def in_ranges_def)

lemma file_field_no_newline:
  assumes "line \<in> set (file_lines contents)"
    and "f \<in> set (split_sep tab (rstrip newline line))"
  shows "newline \<notin> set f"
proof -
  from assms(1) have "newline \<notin> set (butlast line)" by (simp add: file_lines_shape)
  then have "newline \<notin> set (rstrip newline line)" by (rule rstrip_no_newline)
  moreover from assms(2) have "set f \<subseteq> set (rstrip newline line)" by (rule split_sep_fields)
  ultimately show ?thesis by auto
qed

lemma spec_code_pattern_H2: "spec_code_pattern ''H2''"
proof -
  have "''H2'' = ''H'' @ ''2'' @ [] \<and> ''H'' \<noteq> [] \<and> list_all is_upper ''H'' \<and> ''2'' \<noteq> [] \<and>
    list_all is_digit ''2'' \<and> list_all (\<lambda>c. is_upper c \<or> is_digit c) []"
    by (simp add: is_upper_def is_digit_def in_ranges_def)
  then show ?thesis unfolding spec_code_pattern_def by blast
qed


lemma example_lines: "file_lines example_contents =
  [header_row,
     tsv_row [''1001'', ''North Sea'', ''en'', ''Sea''],
     tsv_row [''72M7'', ''FAO Code'', ''en'', ''FAO Subdivisions''],
     tsv_row [''17'', ''As'', ''nl'', ''Town''],
     tsv_row [''18'', ''H2'', ''en'', ''Sea''],
     tsv_row [''19'', ''Skagerrak'', ''en''],
     tsv_row [''1002'', ''North Sea Canal'', ''en'', ''Waterway'']]"
  by (simp add: example_contents_def header_row_def tsv_row_def newline_def tab_def)

lemma read_line_Appended:
  assumes "read_line names pat types line = Appended (tokens, i)"
  shows "\<exists>geo_name language place_type.
           split_sep tab (rstrip newline line) = [i, geo_name, language, place_type] \<and>
           place_type \<notin> types \<and> geo_name \<notin> names \<and> \<not> re_match pat True geo_name \<and>
           tokens = split_ws geo_name"
proof (cases "unpack4 (split_sep tab (rstrip newline line))")
  case (Inl e)
  with assms show ?thesis by (simp add: read_line_def)
next
  case (Inr f)
  obtain a b c d where f: "f = (a, b, c, d)" by (cases f) auto
  with Inr have s: "split_sep tab (rstrip newline line) = [a, b, c, d]"
    by (simp add: unpack4_Inr)
  from assms have "d \<notin> types \<and> b \<notin> names \<and> \<not> re_match pat True b \<and>
      tokens = split_ws b \<and> i = a"
    unfolding read_line_fields [OF s] by (auto split: if_splits)
  with s show ?thesis by blast
qed

lemma example_read:
  "read_lines SKIPPED_GEO_NAMES SKIPPED_GEO_NAMES_PAT SKIPPED_PLACE_TYPES
     [tsv_row [''1001'', ''North Sea'', ''en'', ''Sea''],
      tsv_row [''72M7'', ''FAO Code'', ''en'', ''FAO Subdivisions''],
      tsv_row [''17'', ''As'', ''nl'', ''Town''],
      tsv_row [''18'', ''H2'', ''en'', ''Sea'']] = [([''North'', ''Sea''], ''1001'')]"
  "read_lines SKIPPED_GEO_NAMES SKIPPED_GEO_NAMES_PAT SKIPPED_PLACE_TYPES
     [tsv_row [''1002'', ''North Sea Canal'', ''en'', ''Waterway'']] =
     [([''North'', ''Sea'', ''Canal''], ''1002'')]"
  by (simp_all add: read_lines_def loop_step_def read_line_def tsv_row_def rstrip_def
      newline_def tab_def SKIPPED_PLACE_TYPES_def SKIPPED_GEO_NAMES_def
      SKIPPED_GEO_NAMES_PAT_def in_ranges_def split_ws.simps isspace_def)
section \<open>The entity loader\<close>

text \<open>
  C2, as claimed: no emitted entity has an empty token list, a record whose name splits to
  no token being skipped. The loader has no such check. A well-formed record whose name is
  a single space, of a place type that is not excluded, passes the three filters, and the
  entity appended for it has no tokens.
\<close>

theorem blank_name_yields_empty_token_list:
  "file_lines blank_name_contents = [header_row, tsv_row [''1'', '' '', ''en'', ''Sea'']] \<and>
   split_sep tab (rstrip newline (tsv_row [''1'', '' '', ''en'', ''Sea''])) =
     [''1'', '' '', ''en'', ''Sea''] \<and>
   split_ws '' '' = [] \<and>
   read_text SKIPPED_GEO_NAMES SKIPPED_GEO_NAMES_PAT SKIPPED_PLACE_TYPES blank_name_contents =
     [([], ''1'')]"
  by (simp add: read_text_def read_lines_def loop_step_def read_line_def
      blank_name_contents_def header_row_def tsv_row_def newline_def tab_def rstrip_def
      SKIPPED_GEO_NAMES_def SKIPPED_GEO_NAMES_PAT_def SKIPPED_PLACE_TYPES_def in_ranges_def
      split_ws.simps isspace_def)

text \<open>
  C2, as the code has it. The tokens of an emitted entity are the name of its record split
  at runs of whitespace: none of them is empty, and there are none at all exactly when the
  name is empty or consists of whitespace. Such a record is not skipped for that: unless
  one of the three filters excludes it, it yields an entity with an empty token list and
  its identifier.
\<close>

theorem emitted_tokens_are_name_split:
  shows "(read_line names pat types line = Appended (tokens, i) \<longrightarrow>
            [] \<notin> set tokens \<and>
            (\<exists>geo_name language place_type.
               split_sep tab (rstrip newline line) = [i, geo_name, language, place_type] \<and>
               tokens = split_ws geo_name \<and>
               (tokens = [] \<longleftrightarrow> list_all isspace geo_name))) \<and>
         (split_sep tab (rstrip newline line) = [mrgid, geo_name, language, place_type] \<longrightarrow>
            place_type \<notin> types \<longrightarrow> geo_name \<notin> names \<longrightarrow> \<not> re_match pat True geo_name \<longrightarrow>
            list_all isspace geo_name \<longrightarrow>
            read_line names pat types line = Appended ([], mrgid))"
proof -
  have 1: "[] \<notin> set tokens \<and>
      (\<exists>geo_name language place_type.
         split_sep tab (rstrip newline line) = [i, geo_name, language, place_type] \<and>
         tokens = split_ws geo_name \<and> (tokens = [] \<longleftrightarrow> list_all isspace geo_name))"
    if "read_line names pat types line = Appended (tokens, i)"
  proof -
    from that obtain g l p where
      f: "split_sep tab (rstrip newline line) = [i, g, l, p]" and t: "tokens = split_ws g"
      by (blast dest: read_line_Appended)
    from t have "[] \<notin> set tokens" by (simp add: split_ws_no_empty)
    moreover from t have "tokens = [] \<longleftrightarrow> list_all isspace g" by (simp add: split_ws_Nil_iff)
    ultimately show ?thesis using f t by blast
  qed
  have 2: "read_line names pat types line = Appended ([], mrgid)"
    if "split_sep tab (rstrip newline line) = [mrgid, geo_name, language, place_type]"
      "place_type \<notin> types" "geo_name \<notin> names" "\<not> re_match pat True geo_name"
      "list_all isspace geo_name"
  proof -
    from that(5) have "split_ws geo_name = []" by (simp add: split_ws_Nil_iff)
    with that(2-4) show ?thesis by (simp add: read_line_fields [OF that(1)])
  qed
  from 1 2 show ?thesis by blast
qed

theorem emitted_tokens_are_name_split_witness:
  "split_sep tab (rstrip newline (tsv_row [''1'', '' '', ''en'', ''Sea''])) =
     [''1'', '' '', ''en'', ''Sea''] \<and>
   ''Sea'' \<notin> SKIPPED_PLACE_TYPES \<and> '' '' \<notin> SKIPPED_GEO_NAMES \<and>
   \<not> re_match SKIPPED_GEO_NAMES_PAT True '' '' \<and> list_all isspace '' '' \<and>
   read_line SKIPPED_GEO_NAMES SKIPPED_GEO_NAMES_PAT SKIPPED_PLACE_TYPES
     (tsv_row [''1'', '' '', ''en'', ''Sea'']) = Appended ([], ''1'') \<and>
   read_line SKIPPED_GEO_NAMES SKIPPED_GEO_NAMES_PAT SKIPPED_PLACE_TYPES
     (tsv_row [''1001'', ''North Sea'', ''en'', ''Sea'']) = Appended ([''North'', ''Sea''], ''1001'') \<and>
   [] \<notin> set [''North'', ''Sea'']"
proof -
  have f: "split_sep tab (rstrip newline (tsv_row [''1'', '' '', ''en'', ''Sea''])) =
     [''1'', '' '', ''en'', ''Sea'']"
    by (simp add: tsv_row_def rstrip_def newline_def tab_def)
  have n: "''Sea'' \<notin> SKIPPED_PLACE_TYPES" "'' '' \<notin> SKIPPED_GEO_NAMES"
    "\<not> re_match SKIPPED_GEO_NAMES_PAT True '' ''" "list_all isspace '' ''"
    by (simp_all add: SKIPPED_PLACE_TYPES_def SKIPPED_GEO_NAMES_def SKIPPED_GEO_NAMES_PAT_def
        in_ranges_def isspace_def)
  have a: "read_line SKIPPED_GEO_NAMES SKIPPED_GEO_NAMES_PAT SKIPPED_PLACE_TYPES
     (tsv_row [''1001'', ''North Sea'', ''en'', ''Sea'']) = Appended ([''North'', ''Sea''], ''1001'')"
    by (simp add: read_line_def tsv_row_def rstrip_def newline_def tab_def
        SKIPPED_PLACE_TYPES_def SKIPPED_GEO_NAMES_def SKIPPED_GEO_NAMES_PAT_def
        in_ranges_def split_ws.simps isspace_def)
  note T = emitted_tokens_are_name_split [of SKIPPED_GEO_NAMES SKIPPED_GEO_NAMES_PAT
      SKIPPED_PLACE_TYPES]
  from T [of "tsv_row [''1'', '' '', ''en'', ''Sea'']" _ _ "''1''" "'' ''" "''en''" "''Sea''"] f n
  have b: "read_line SKIPPED_GEO_NAMES SKIPPED_GEO_NAMES_PAT SKIPPED_PLACE_TYPES
     (tsv_row [''1'', '' '', ''en'', ''Sea'']) = Appended ([], ''1'')"
    by blast
  from T [of "tsv_row [''1001'', ''North Sea'', ''en'', ''Sea'']" "[''North'', ''Sea'']" "''1001''"] a
  have c: "[] \<notin> set [''North'', ''Sea'']" by blast
  from f n a b c show ?thesis by blast
qed

text \<open>
  C3. A line after the header that splits into exactly four fields is skipped by the
  filter if and only if its place type is among the skipped place types, or its name is
  among the skipped names, or its name matches the pattern: one or more uppercase letters,
  then at least one digit, then any number of uppercase letters or digits. A record named
  \<^verbatim>\<open>As\<close> is skipped under the default parameters whatever its place type, and a record
  named \<^verbatim>\<open>H2\<close> is skipped by the pattern. (A field of a line of a file holds no newline,
  so the newline that \<^verbatim>\<open>$\<close> tolerates at the end of a string plays no part.)
\<close>

theorem record_skipped_iff:
  assumes "line \<in> set (drop 1 (file_lines contents))"
    and "split_sep tab (rstrip newline line) = [mrgid, geo_name, language, place_type]"
  shows "(read_line names SKIPPED_GEO_NAMES_PAT types line = Skipping \<longleftrightarrow>
            place_type \<in> types \<or> geo_name \<in> names \<or> spec_code_pattern geo_name) \<and>
         (geo_name = ''As'' \<longrightarrow>
            read_line SKIPPED_GEO_NAMES SKIPPED_GEO_NAMES_PAT SKIPPED_PLACE_TYPES line = Skipping) \<and>
         (geo_name = ''H2'' \<longrightarrow>
            spec_code_pattern geo_name \<and>
            read_line names SKIPPED_GEO_NAMES_PAT types line = Skipping)"
proof -
  from assms(1) have "line \<in> set (file_lines contents)" by (rule in_set_dropD)
  moreover from assms(2) have "geo_name \<in> set (split_sep tab (rstrip newline line))" by simp
  ultimately have "newline \<notin> set geo_name" by (rule file_field_no_newline)
  then have p: "re_match SKIPPED_GEO_NAMES_PAT True geo_name \<longleftrightarrow> spec_code_pattern geo_name"
    by (rule pat_match_spec)
  have 1: "read_line names SKIPPED_GEO_NAMES_PAT types line = Skipping \<longleftrightarrow>
      place_type \<in> types \<or> geo_name \<in> names \<or> spec_code_pattern geo_name"
    by (simp add: read_line_fields [OF assms(2)] p)
  have 2: "read_line SKIPPED_GEO_NAMES SKIPPED_GEO_NAMES_PAT SKIPPED_PLACE_TYPES line = Skipping"
    if "geo_name = ''As''"
    using that by (simp add: read_line_fields [OF assms(2)] SKIPPED_GEO_NAMES_def)
  have 3: "spec_code_pattern geo_name \<and> read_line names SKIPPED_GEO_NAMES_PAT types line = Skipping"
    if "geo_name = ''H2''"
    using that 1 spec_code_pattern_H2 by simp
  from 1 2 3 show ?thesis by blast
qed

theorem record_skipped_iff_witness:
  "tsv_row [''18'', ''H2'', ''en'', ''Sea''] \<in> set (drop 1 (file_lines example_contents)) \<and>
   split_sep tab (rstrip newline (tsv_row [''18'', ''H2'', ''en'', ''Sea''])) =
     [''18'', ''H2'', ''en'', ''Sea''] \<and>
   ''Sea'' \<notin> SKIPPED_PLACE_TYPES \<and> ''H2'' \<notin> SKIPPED_GEO_NAMES \<and>
   spec_code_pattern ''H2'' \<and>
   read_line SKIPPED_GEO_NAMES SKIPPED_GEO_NAMES_PAT SKIPPED_PLACE_TYPES
     (tsv_row [''18'', ''H2'', ''en'', ''Sea'']) = Skipping \<and>
   tsv_row [''17'', ''As'', ''nl'', ''Town''] \<in> set (drop 1 (file_lines example_contents)) \<and>
   split_sep tab (rstrip newline (tsv_row [''17'', ''As'', ''nl'', ''Town''])) =
     [''17'', ''As'', ''nl'', ''Town''] \<and>
   read_line SKIPPED_GEO_NAMES SKIPPED_GEO_NAMES_PAT SKIPPED_PLACE_TYPES
     (tsv_row [''17'', ''As'', ''nl'', ''Town'']) = Skipping"
proof -
  have m: "tsv_row [''18'', ''H2'', ''en'', ''Sea''] \<in> set (drop 1 (file_lines example_contents))"
    by (simp add: example_lines)
  have f: "split_sep tab (rstrip newline (tsv_row [''18'', ''H2'', ''en'', ''Sea''])) =
     [''18'', ''H2'', ''en'', ''Sea'']"
    by (simp add: tsv_row_def rstrip_def newline_def tab_def)
  have n: "''Sea'' \<notin> SKIPPED_PLACE_TYPES" "''H2'' \<notin> SKIPPED_GEO_NAMES"
    by (simp_all add: SKIPPED_PLACE_TYPES_def SKIPPED_GEO_NAMES_def)
  from record_skipped_iff [OF m f, of SKIPPED_GEO_NAMES SKIPPED_PLACE_TYPES]
  have h: "spec_code_pattern ''H2''"
    "read_line SKIPPED_GEO_NAMES SKIPPED_GEO_NAMES_PAT SKIPPED_PLACE_TYPES
       (tsv_row [''18'', ''H2'', ''en'', ''Sea'']) = Skipping"
    by simp_all
  have m': "tsv_row [''17'', ''As'', ''nl'', ''Town''] \<in> set (drop 1 (file_lines example_contents))"
    by (simp add: example_lines)
  have f': "split_sep tab (rstrip newline (tsv_row [''17'', ''As'', ''nl'', ''Town''])) =
     [''17'', ''As'', ''nl'', ''Town'']"
    by (simp add: tsv_row_def rstrip_def newline_def tab_def)
  from record_skipped_iff [OF m' f']
  have a: "read_line SKIPPED_GEO_NAMES SKIPPED_GEO_NAMES_PAT SKIPPED_PLACE_TYPES
       (tsv_row [''17'', ''As'', ''nl'', ''Town'']) = Skipping"
    by simp
  from m f n h m' f' a show ?thesis by blast
qed

text \<open>
  C4. A line after the header that does not split into exactly four fields takes the
  \<^verbatim>\<open>except\<close> branch and adds no entity; the loader goes on with the lines that follow
  and returns normally: its result is what the lines before and the lines after
  contribute, the same as if the line were not there.
\<close>

theorem ill_formed_line_is_passed_over:
  assumes "fs csv_fname = Some contents"
    and "file_lines contents = header # before @ line # after"
    and "length (split_sep tab (rstrip newline line)) \<noteq> 4"
  shows "read_line names pat types line = Ill_formed \<and>
         read_lines names pat types (before @ line # after) =
           read_lines names pat types (before @ after) \<and>
         read_mr_entities fs csv_fname names pat types =
           Inr (read_lines names pat types before @ read_lines names pat types after)"
proof -
  from assms(3) have i: "read_line names pat types line = Ill_formed"
    by (simp add: read_line_ill_formed)
  then have e: "read_lines names pat types [line] = []"
    by (simp add: read_lines_concat emitted_def)
  have "read_lines names pat types (before @ line # after) =
      read_lines names pat types before @ read_lines names pat types [line] @
      read_lines names pat types after"
    by (simp add: read_lines_concat)
  with e have l: "read_lines names pat types (before @ line # after) =
      read_lines names pat types before @ read_lines names pat types after"
    by simp
  then have 2: "read_lines names pat types (before @ line # after) =
      read_lines names pat types (before @ after)"
    by (simp add: read_lines_append)
  from assms(1,2) l have 3: "read_mr_entities fs csv_fname names pat types =
      Inr (read_lines names pat types before @ read_lines names pat types after)"
    by (simp add: read_mr_entities_def read_text_def)
  from i 2 3 show ?thesis by simp
qed

theorem ill_formed_line_is_passed_over_witness:
  "[''export.csv'' \<mapsto> example_contents] ''export.csv'' = Some example_contents \<and>
   file_lines example_contents =
     header_row #
     [tsv_row [''1001'', ''North Sea'', ''en'', ''Sea''],
      tsv_row [''72M7'', ''FAO Code'', ''en'', ''FAO Subdivisions''],
      tsv_row [''17'', ''As'', ''nl'', ''Town''],
      tsv_row [''18'', ''H2'', ''en'', ''Sea'']] @
     tsv_row [''19'', ''Skagerrak'', ''en''] #
     [tsv_row [''1002'', ''North Sea Canal'', ''en'', ''Waterway'']] \<and>
   length (split_sep tab (rstrip newline (tsv_row [''19'', ''Skagerrak'', ''en'']))) = 3 \<and>
   read_mr_entities [''export.csv'' \<mapsto> example_contents] ''export.csv''
     SKIPPED_GEO_NAMES SKIPPED_GEO_NAMES_PAT SKIPPED_PLACE_TYPES =
     Inr [([''North'', ''Sea''], ''1001''), ([''North'', ''Sea'', ''Canal''], ''1002'')]"
proof -
  have o: "[''export.csv'' \<mapsto> example_contents] ''export.csv'' = Some example_contents"
    by simp
  have l: "file_lines example_contents =
     header_row #
     [tsv_row [''1001'', ''North Sea'', ''en'', ''Sea''],
      tsv_row [''72M7'', ''FAO Code'', ''en'', ''FAO Subdivisions''],
      tsv_row [''17'', ''As'', ''nl'', ''Town''],
      tsv_row [''18'', ''H2'', ''en'', ''Sea'']] @
     tsv_row [''19'', ''Skagerrak'', ''en''] #
     [tsv_row [''1002'', ''North Sea Canal'', ''en'', ''Waterway'']]"
    by (simp add: example_lines)
  have n: "length (split_sep tab (rstrip newline (tsv_row [''19'', ''Skagerrak'', ''en'']))) = 3"
    by (simp add: tsv_row_def rstrip_def newline_def tab_def)
  then have n': "length (split_sep tab (rstrip newline (tsv_row [''19'', ''Skagerrak'', ''en'']))) \<noteq> 4"
    by simp
  from ill_formed_line_is_passed_over [where fs = "[''export.csv'' \<mapsto> example_contents]"
      and csv_fname = "''export.csv''" and names = SKIPPED_GEO_NAMES
      and pat = SKIPPED_GEO_NAMES_PAT and types = SKIPPED_PLACE_TYPES, OF o l n']
  have "read_mr_entities [''export.csv'' \<mapsto> example_contents] ''export.csv''
     SKIPPED_GEO_NAMES SKIPPED_GEO_NAMES_PAT SKIPPED_PLACE_TYPES =
     Inr [([''North'', ''Sea''], ''1001''), ([''North'', ''Sea'', ''Canal''], ''1002'')]"
    by (simp only: example_read append.simps)
  with o l n show ?thesis by blast
qed

text \<open>
  C8. What a line contributes does not depend on the lines processed before it: in any
  position, the loop adds for it what it adds when started on that line alone. The
  decision is a function of the filter parameters and of the fields of the line: two lines
  with the same fields are decided alike.
\<close>

theorem filter_decision_is_local:
  "read_lines names pat types (before @ line # after) =
     read_lines names pat types before @ read_lines names pat types [line] @
     read_lines names pat types after \<and>
   read_lines names pat types [line] = emitted names pat types line \<and>
   (split_sep tab (rstrip newline line) = split_sep tab (rstrip newline line') \<longrightarrow>
      read_line names pat types line = read_line names pat types line')"
proof -
  have "read_line names pat types line = read_line names pat types line'"
    if "split_sep tab (rstrip newline line) = split_sep tab (rstrip newline line')"
    using that by (simp add: read_line_def)
  then show ?thesis by (simp add: read_lines_concat)
qed

theorem filter_decision_is_local_witness:
  "split_sep tab (rstrip newline (tsv_row [''17'', ''As'', ''nl'', ''Town''])) =
     split_sep tab (rstrip newline (''17'' @ [tab] @ ''As'' @ [tab] @ ''nl'' @ [tab] @ ''Town'')) \<and>
   read_line SKIPPED_GEO_NAMES SKIPPED_GEO_NAMES_PAT SKIPPED_PLACE_TYPES
     (tsv_row [''17'', ''As'', ''nl'', ''Town'']) = Skipping \<and>
   read_line SKIPPED_GEO_NAMES SKIPPED_GEO_NAMES_PAT SKIPPED_PLACE_TYPES
     (''17'' @ [tab] @ ''As'' @ [tab] @ ''nl'' @ [tab] @ ''Town'') = Skipping"
proof -
  have e: "split_sep tab (rstrip newline (tsv_row [''17'', ''As'', ''nl'', ''Town''])) =
     split_sep tab (rstrip newline (''17'' @ [tab] @ ''As'' @ [tab] @ ''nl'' @ [tab] @ ''Town''))"
    by (simp add: tsv_row_def rstrip_def newline_def tab_def)
  have s: "read_line SKIPPED_GEO_NAMES SKIPPED_GEO_NAMES_PAT SKIPPED_PLACE_TYPES
     (tsv_row [''17'', ''As'', ''nl'', ''Town'']) = Skipping"
    by (simp add: read_line_def tsv_row_def rstrip_def newline_def tab_def SKIPPED_GEO_NAMES_def)
  from filter_decision_is_local [of SKIPPED_GEO_NAMES SKIPPED_GEO_NAMES_PAT SKIPPED_PLACE_TYPES
      "[]" "tsv_row [''17'', ''As'', ''nl'', ''Town'']" "[]"
      "''17'' @ [tab] @ ''As'' @ [tab] @ ''nl'' @ [tab] @ ''Town''"] e s
  have "read_line SKIPPED_GEO_NAMES SKIPPED_GEO_NAMES_PAT SKIPPED_PLACE_TYPES
     (''17'' @ [tab] @ ''As'' @ [tab] @ ''nl'' @ [tab] @ ''Town'') = Skipping"
    by simp
  with e s show ?thesis by blast
qed

text \<open>
  C9. When the file can be opened, \<^verbatim>\<open>read_mr_entities\<close> returns normally, and the list it
  returns holds, in the order of the input, the entities of the lines after the header
  that are neither ill-formed nor skipped; the emitted entities, the skipped lines and the
  ill-formed lines together are as many as the lines of the file less the header.
\<close>

theorem output_keeps_input_order:
  assumes "fs csv_fname = Some contents"
  shows "read_mr_entities fs csv_fname names pat types =
           Inr (map (the_entity \<circ> read_line names pat types)
                  (filter (is_Appended \<circ> read_line names pat types)
                     (drop 1 (file_lines contents)))) \<and>
         read_mr_entities fs csv_fname names pat types =
           Inr (read_text names pat types contents) \<and>
         length (read_text names pat types contents)
           + length (filter (\<lambda>l. read_line names pat types l = Skipping)
               (drop 1 (file_lines contents)))
           + length (filter (\<lambda>l. read_line names pat types l = Ill_formed)
               (drop 1 (file_lines contents)))
           = length (file_lines contents) - 1"
proof -
  have 1: "concat (map (emitted names pat types) ls) =
      map (the_entity \<circ> read_line names pat types)
        (filter (is_Appended \<circ> read_line names pat types) ls)" for ls
    by (induction ls) (auto simp: emitted_def split: line_result.splits)
  have 2: "length (concat (map (emitted names pat types) ls))
      + length (filter (\<lambda>l. read_line names pat types l = Skipping) ls)
      + length (filter (\<lambda>l. read_line names pat types l = Ill_formed) ls) = length ls" for ls
    by (induction ls) (auto simp: emitted_def split: line_result.splits)
  have t: "read_text names pat types contents =
      map (the_entity \<circ> read_line names pat types)
        (filter (is_Appended \<circ> read_line names pat types) (drop 1 (file_lines contents)))"
    using 1 by (simp add: read_text_def read_lines_concat)
  have r: "read_mr_entities fs csv_fname names pat types =
      Inr (read_text names pat types contents)"
    using assms by (simp add: read_mr_entities_def)
  have c: "length (read_text names pat types contents)
      + length (filter (\<lambda>l. read_line names pat types l = Skipping)
          (drop 1 (file_lines contents)))
      + length (filter (\<lambda>l. read_line names pat types l = Ill_formed)
          (drop 1 (file_lines contents)))
      = length (file_lines contents) - 1"
    using 2 [of "drop 1 (file_lines contents)"] by (simp add: read_text_def read_lines_concat)
  from r t have "read_mr_entities fs csv_fname names pat types =
      Inr (map (the_entity \<circ> read_line names pat types)
        (filter (is_Appended \<circ> read_line names pat types) (drop 1 (file_lines contents))))"
    by simp
  with r c show ?thesis by blast
qed

theorem output_keeps_input_order_witness:
  "[''export.csv'' \<mapsto> example_contents] ''export.csv'' = Some example_contents \<and>
   read_mr_entities [''export.csv'' \<mapsto> example_contents] ''export.csv''
     SKIPPED_GEO_NAMES SKIPPED_GEO_NAMES_PAT SKIPPED_PLACE_TYPES =
     Inr [([''North'', ''Sea''], ''1001''), ([''North'', ''Sea'', ''Canal''], ''1002'')] \<and>
   length (file_lines example_contents) = 7 \<and>
   length (filter (\<lambda>l. read_line SKIPPED_GEO_NAMES SKIPPED_GEO_NAMES_PAT SKIPPED_PLACE_TYPES l
       = Skipping) (drop 1 (file_lines example_contents)))
   + length (filter (\<lambda>l. read_line SKIPPED_GEO_NAMES SKIPPED_GEO_NAMES_PAT SKIPPED_PLACE_TYPES l
       = Ill_formed) (drop 1 (file_lines example_contents))) = 4"
proof -
  have o: "[''export.csv'' \<mapsto> example_contents] ''export.csv'' = Some example_contents"
    by simp
  have r: "read_text SKIPPED_GEO_NAMES SKIPPED_GEO_NAMES_PAT SKIPPED_PLACE_TYPES example_contents =
     [([''North'', ''Sea''], ''1001''), ([''North'', ''Sea'', ''Canal''], ''1002'')]"
    by (simp add: read_text_def example_lines read_lines_def loop_step_def read_line_def
      tsv_row_def rstrip_def
      newline_def tab_def SKIPPED_PLACE_TYPES_def SKIPPED_GEO_NAMES_def
      SKIPPED_GEO_NAMES_PAT_def in_ranges_def split_ws.simps isspace_def)
  have l: "length (file_lines example_contents) = 7" by (simp add: example_lines)
  note T = output_keeps_input_order [where fs = "[''export.csv'' \<mapsto> example_contents]"
      and csv_fname = "''export.csv''" and names = SKIPPED_GEO_NAMES
      and pat = SKIPPED_GEO_NAMES_PAT and types = SKIPPED_PLACE_TYPES, OF o]
  from conjunct1 [OF conjunct2 [OF T]]
  have m: "read_mr_entities [''export.csv'' \<mapsto> example_contents] ''export.csv''
     SKIPPED_GEO_NAMES SKIPPED_GEO_NAMES_PAT SKIPPED_PLACE_TYPES =
     Inr [([''North'', ''Sea''], ''1001''), ([''North'', ''Sea'', ''Canal''], ''1002'')]"
    unfolding r .
  from conjunct2 [OF conjunct2 [OF T]]
  have c: "length (filter (\<lambda>l. read_line SKIPPED_GEO_NAMES SKIPPED_GEO_NAMES_PAT SKIPPED_PLACE_TYPES l
       = Skipping) (drop 1 (file_lines example_contents)))
   + length (filter (\<lambda>l. read_line SKIPPED_GEO_NAMES SKIPPED_GEO_NAMES_PAT SKIPPED_PLACE_TYPES l
       = Ill_formed) (drop 1 (file_lines example_contents))) = 4"
    unfolding r l by simp
  from o m l c show ?thesis by blast
qed

section \<open>The trie builder\<close>

text \<open>
  C1. For every entity of the sequence given to \<^verbatim>\<open>build_trie\<close>, walking from the
  returned root through \<^verbatim>\<open>children\<close> by the tokens of the entity, in order, reaches a
  node, and the \<^verbatim>\<open>ids\<close> of that node contain the identifier of the entity.
\<close>

theorem build_trie_finds_every_entity:
  assumes "build_trie entities = (trie, h)" and "(tokens, i) \<in> set entities"
  shows "\<exists>node. walk h trie tokens = Some node \<and> node < length h \<and> i \<in> set (ids (h ! node))"
proof -
  from assms obtain node where w: "walk h 0 tokens = Some node"
    by (blast dest: build_trie_walk_entity)
  from assms(1) have t: "tree_heap h" and r: "trie = 0"
    by (rule build_trie_tree_heap, rule build_trie_inv(1))
  from t have "0 < length h" by (simp add: tree_heap_def)
  with t have "node < length h" using w by (rule walk_in_heap)
  moreover from assms(1) w have "ids (h ! node) = ids_of entities tokens"
    by (rule build_trie_ids)
  with assms(2) have "i \<in> set (ids (h ! node))" by (force simp: ids_of_def)
  ultimately show ?thesis using w r by simp
qed

theorem build_trie_finds_every_entity_witness:
  "build_trie example_entities = (0, example_heap) \<and>
   ([''North'', ''Sea'', ''Canal''], ''1002'') \<in> set example_entities \<and>
   walk example_heap 0 [''North'', ''Sea'', ''Canal''] = Some 3 \<and>
   ''1002'' \<in> set (ids (example_heap ! 3))"
proof -
  have b: "build_trie example_entities = (0, example_heap)" by (rule example_build)
  have m: "([''North'', ''Sea'', ''Canal''], ''1002'') \<in> set example_entities"
    by (simp add: example_entities_def)
  have w: "walk example_heap 0 [''North'', ''Sea'', ''Canal''] = Some 3"
    by (simp add: example_heap_def)
  from build_trie_finds_every_entity [OF b m] w b m show ?thesis by simp
qed

text \<open>
  C5. Let two entities of the input have the same token list, the one with identifier \<open>i\<close>
  before the one with identifier \<open>j\<close>. Inserting the second allocates no node and
  changes no \<^verbatim>\<open>children\<close>: the heap after it is the heap before it with \<open>j\<close> appended to
  the \<^verbatim>\<open>ids\<close> of the node that the tokens reach. In the finished trie the tokens reach
  that same node, and its \<^verbatim>\<open>ids\<close> hold \<open>i\<close> before \<open>j\<close>.
\<close>

theorem same_tokens_share_terminal_node:
  assumes "entities = es1 @ (tokens, i) # es2 @ (tokens, j) # es3"
    and "build_trie (es1 @ (tokens, i) # es2) = (trie1, h1)"
    and "build_trie (es1 @ (tokens, i) # es2 @ [(tokens, j)]) = (trie2, h2)"
    and "build_trie entities = (trie, h)"
  shows "\<exists>node. walk h1 trie1 tokens = Some node \<and>
           trie2 = trie1 \<and> length h2 = length h1 \<and> map children h2 = map children h1 \<and>
           h2 = ids_append h1 node j \<and>
           trie = trie1 \<and> walk h trie tokens = Some node \<and>
           (\<exists>xs ys zs. ids (h ! node) = xs @ i # ys @ j # zs)"
proof -
  let ?before = "es1 @ (tokens, i) # es2"
  from assms(2) have r1: "trie1 = 0" and h1: "h1 = heap (build_state_of ?before)"
    by (rule build_trie_inv(1), rule build_trie_inv(2))
  from assms(4) have r: "trie = 0" and h: "h = heap (build_state_of entities)"
    by (rule build_trie_inv(1), rule build_trie_inv(2))
  have "(tokens, i) \<in> set ?before" by simp
  with assms(2) obtain node where w1: "walk h1 0 tokens = Some node"
    by (blast dest: build_trie_walk_entity)
  then have w1': "walk h1 trie1 tokens = Some node" by (simp add: r1)
  with assms(2) have "build_trie (?before @ [(tokens, j)]) = (trie1, ids_append h1 node j)"
    by (rule build_trie_snoc_existing)
  with assms(3) have 2: "trie2 = trie1" "h2 = ids_append h1 node j" by simp_all
  from 2(2) have 3: "length h2 = length h1" "map children h2 = map children h1"
    by (simp_all add: ids_append_children)
  from w1 have "walk (heap (build_state_of (?before @ (tokens, j) # es3))) 0 tokens = Some node"
    unfolding h1 by (rule build_walk_mono)
  then have w: "walk h 0 tokens = Some node" by (simp add: h assms(1))
  with assms(4) have "ids (h ! node) = ids_of entities tokens" by (rule build_trie_ids)
  then have "ids (h ! node) =
      ids_of es1 tokens @ i # ids_of es2 tokens @ j # ids_of es3 tokens"
    by (simp add: assms(1) ids_of_def)
  then have "\<exists>xs ys zs. ids (h ! node) = xs @ i # ys @ j # zs" by blast
  with w1' 2 3 w r r1 show ?thesis by simp
qed

theorem same_tokens_share_terminal_node_witness:
  "example_entities =
     [] @ ([''North'', ''Sea''], ''1001'') # [([''North'', ''Sea'', ''Canal''], ''1002'')] @
     ([''North'', ''Sea''], ''1003'') # [] \<and>
   build_trie ([] @ ([''North'', ''Sea''], ''1001'') # [([''North'', ''Sea'', ''Canal''], ''1002'')])
     = (0, example_heap_before) \<and>
   build_trie example_entities = (0, example_heap) \<and>
   walk example_heap_before 0 [''North'', ''Sea''] = Some 2 \<and>
   example_heap = ids_append example_heap_before 2 ''1003'' \<and>
   ids (example_heap ! 2) = [''1001'', ''1003'']"
proof -
  have e: "example_entities =
     [] @ ([''North'', ''Sea''], ''1001'') # [([''North'', ''Sea'', ''Canal''], ''1002'')] @
     ([''North'', ''Sea''], ''1003'') # []"
    by (simp add: example_entities_def)
  have b1: "build_trie ([] @ ([''North'', ''Sea''], ''1001'') # [([''North'', ''Sea'', ''Canal''], ''1002'')])
     = (0, example_heap_before)"
    by (simp add: build_trie_def build_loop_def insert_entity_def alloc_Node_def set_child_def
      ids_append_def example_heap_before_def)
  have b2: "build_trie ([] @ ([''North'', ''Sea''], ''1001'') #
      [([''North'', ''Sea'', ''Canal''], ''1002'')] @ [([''North'', ''Sea''], ''1003'')])
     = (0, example_heap)"
    using example_build by (simp add: example_entities_def)
  have b: "build_trie example_entities = (0, example_heap)" by (rule example_build)
  have w: "walk example_heap_before 0 [''North'', ''Sea''] = Some 2"
    by (simp add: example_heap_before_def)
  from same_tokens_share_terminal_node [OF e b1 b2 b] w
  have "example_heap = ids_append example_heap_before 2 ''1003''" by simp
  moreover have "ids (example_heap ! 2) = [''1001'', ''1003'']" by (simp add: example_heap_def)
  ultimately show ?thesis using e b1 b w by blast
qed

text \<open>
  C6. In the finished trie the lengths of \<^verbatim>\<open>ids\<close>, summed over the nodes reachable from
  the root (which are all the allocated nodes, a finite set), give the number of entities
  of the input: every entity places its identifier once, none is dropped.
\<close>

theorem one_id_placement_per_entity:
  assumes "build_trie entities = (trie, h)"
  shows "reachable h trie = {0..<length h} \<and>
         (\<Sum>node \<in> reachable h trie. length (ids (h ! node))) = length entities"
proof -
  from assms have r: "reachable h trie = {0..<length h}" by (rule reachable_build)
  from build_trie_inv [OF assms]
  have "sum_list (map (length \<circ> ids) h) = length entities" by (simp add: trie_inv_def)
  moreover have "sum_list (map (length \<circ> ids) h) = (\<Sum>node = 0..<length h. length (ids (h ! node)))"
    by (simp add: sum_list_sum_nth)
  ultimately show ?thesis using r by simp
qed

theorem one_id_placement_per_entity_witness:
  "build_trie example_entities = (0, example_heap) \<and>
   reachable example_heap 0 = {0..<4} \<and>
   (\<Sum>node \<in> reachable example_heap 0. length (ids (example_heap ! node))) = 3 \<and>
   length example_entities = 3"
proof -
  have b: "build_trie example_entities = (0, example_heap)" by (rule example_build)
  have l: "length example_heap = 4" "length example_entities = 3"
    by (simp_all add: example_heap_def example_entities_def)
  note T = one_id_placement_per_entity [OF b]
  from T l(1) have r: "reachable example_heap 0 = {0..<4}" by simp
  from conjunct2 [OF T] l(2)
  have s: "(\<Sum>node \<in> reachable example_heap 0. length (ids (example_heap ! node))) = 3"
    by simp
  from b r s l(2) show ?thesis by blast
qed

text \<open>
  C7. The finished trie is a tree. Two token lists that reach the same node from the root
  are equal, so a node stands for exactly one token list; no node has two parents, or one
  parent under two tokens, and the root has none. For two entities of the input, every
  prefix of either token list reaches a node, and a prefix of the one reaches the same node
  as a prefix of the other exactly when the two prefixes are equal: the paths share their
  nodes along the common prefix and part at the first token that differs.
\<close>

theorem trie_is_a_tree:
  assumes "build_trie entities = (trie, h)"
  shows "(\<forall>p q node. walk h trie p = Some node \<longrightarrow> walk h trie q = Some node \<longrightarrow> p = q) \<and>
         (\<forall>a t b s c. edge h a t c \<longrightarrow> edge h b s c \<longrightarrow> a = b \<and> t = s) \<and>
         (\<forall>a t. \<not> edge h a t trie) \<and>
         (\<forall>(tokens1, i1) \<in> set entities. \<forall>(tokens2, i2) \<in> set entities. \<forall>m n.
            \<exists>a b. walk h trie (take m tokens1) = Some a \<and>
                  walk h trie (take n tokens2) = Some b \<and>
                  (a = b \<longleftrightarrow> take m tokens1 = take n tokens2))"
proof -
  from assms have t: "tree_heap h" and r: "trie = 0"
    by (rule build_trie_tree_heap, rule build_trie_inv(1))
  have inj: "p = q" if "walk h trie p = Some node" "walk h trie q = Some node" for p q node
    using t that unfolding r by (rule walk_inj)
  have par: "a = b \<and> u = s" if "edge h a u c" "edge h b s c" for a u b s c
    using t that by (rule tree_heap_parent)
  have root: "\<not> edge h a u trie" for a u
  proof
    assume "edge h a u trie"
    with t have "a < trie" by (rule tree_heap_edge_less)
    with r show False by simp
  qed
  have pre: "\<exists>a b. walk h trie (take m ts1) = Some a \<and> walk h trie (take n ts2) = Some b \<and>
      (a = b \<longleftrightarrow> take m ts1 = take n ts2)"
    if "(ts1, i1) \<in> set entities" "(ts2, i2) \<in> set entities" for ts1 i1 ts2 i2 m n
  proof -
    from assms that(1) obtain x where "walk h trie ts1 = Some x"
      unfolding r by (blast dest: build_trie_walk_entity)
    then obtain a where a: "walk h trie (take m ts1) = Some a" by (blast dest: walk_prefix)
    from assms that(2) obtain y where "walk h trie ts2 = Some y"
      unfolding r by (blast dest: build_trie_walk_entity)
    then obtain b where b: "walk h trie (take n ts2) = Some b" by (blast dest: walk_prefix)
    have "a = b \<longleftrightarrow> take m ts1 = take n ts2"
    proof
      assume "a = b"
      with a b show "take m ts1 = take n ts2" by (auto intro: inj)
    next
      assume "take m ts1 = take n ts2"
      with a b show "a = b" by simp
    qed
    with a b show ?thesis by blast
  qed
  from inj par root pre show ?thesis by (intro conjI) blast+
qed

theorem trie_is_a_tree_witness:
  "build_trie example_entities = (0, example_heap) \<and>
   ([''North'', ''Sea''], ''1001'') \<in> set example_entities \<and>
   ([''North'', ''Sea'', ''Canal''], ''1002'') \<in> set example_entities \<and>
   walk example_heap 0 (take 2 [''North'', ''Sea'']) = Some 2 \<and>
   walk example_heap 0 (take 2 [''North'', ''Sea'', ''Canal'']) = Some 2 \<and>
   walk example_heap 0 (take 3 [''North'', ''Sea'', ''Canal'']) = Some 3 \<and>
   take 2 [''North'', ''Sea''] = take 2 [''North'', ''Sea'', ''Canal'']"
proof -
  have b: "build_trie example_entities = (0, example_heap)" by (rule example_build)
  have m: "([''North'', ''Sea''], ''1001'') \<in> set example_entities"
    "([''North'', ''Sea'', ''Canal''], ''1002'') \<in> set example_entities"
    by (simp_all add: example_entities_def)
  have w: "walk example_heap 0 (take 2 [''North'', ''Sea'']) = Some 2"
    "walk example_heap 0 (take 2 [''North'', ''Sea'', ''Canal'']) = Some 2"
    "walk example_heap 0 (take 3 [''North'', ''Sea'', ''Canal'']) = Some 3"
    by (simp_all add: example_heap_def)
  from trie_is_a_tree [OF b]
  have "\<forall>p q node. walk example_heap 0 p = Some node \<longrightarrow>
      walk example_heap 0 q = Some node \<longrightarrow> p = q" ..
  with w(1,2) have "take 2 [''North'', ''Sea''] = take 2 [''North'', ''Sea'', ''Canal'']"
    by blast
  with b m w show ?thesis by blast
qed

text \<open>
  C10. An entity with an empty token list is neither rejected nor skipped: the inner loop
  does not run, so \<^verbatim>\<open>node\<close> is still the root and the identifier is appended to the
  \<^verbatim>\<open>ids\<close> of the root itself. The \<^verbatim>\<open>ids\<close> of the root are exactly the identifiers of
  the entities without tokens, in input order.
\<close>

theorem empty_tokens_land_on_root:
  assumes "build_trie entities = (trie, h)"
  shows "build_trie (entities @ [([], i)]) = (trie, ids_append h trie i) \<and>
         ids (ids_append h trie i ! trie) = ids (h ! trie) @ [i] \<and>
         ids (h ! trie) = ids_of entities []"
proof -
  have w: "walk h trie [] = Some trie" by simp
  from assms w have 1: "build_trie (entities @ [([], i)]) = (trie, ids_append h trie i)"
    by (rule build_trie_snoc_existing)
  from assms have t: "tree_heap h" and r: "trie = 0"
    by (rule build_trie_tree_heap, rule build_trie_inv(1))
  from t have "trie < length h" by (simp add: tree_heap_def r)
  then have 2: "ids (ids_append h trie i ! trie) = ids (h ! trie) @ [i]"
    by (simp add: ids_append_ids)
  from w r have "walk h 0 [] = Some trie" by simp
  with assms have 3: "ids (h ! trie) = ids_of entities []" by (rule build_trie_ids)
  from 1 2 3 show ?thesis by simp
qed

theorem empty_tokens_land_on_root_witness:
  "build_trie example_entities = (0, example_heap) \<and>
   build_trie (example_entities @ [([], ''7'')]) = (0, ids_append example_heap 0 ''7'') \<and>
   ids (ids_append example_heap 0 ''7'' ! 0) = [''7'']"
proof -
  have b: "build_trie example_entities = (0, example_heap)" by (rule example_build)
  have "ids (example_heap ! 0) = []" by (simp add: example_heap_def)
  with empty_tokens_land_on_root [OF b, of "''7''"] b show ?thesis by simp
qed

end
